theory Spec2Isabelle
  imports Main "HOL-Library.Multiset"
begin

section \<open>The settings service of x-ui\<close>

text \<open>
  A shallow embedding of the settings service (package \<open>service\<close>): the default
  catalogue \<open>defaultValueMap\<close>, the reflective read \<open>GetAllSetting\<close>, the bulk write
  \<open>UpdateAllSetting\<close>, the row upsert \<open>saveSetting\<close> and the scalar accessors built
  on \<open>getString\<close>. Every function that touches the database takes the store and returns
  it; every Go \<open>error\<close> result is a value of the type \<open>error\<close>.
\<close>

subsection \<open>Errors\<close>

text \<open>
  \<open>strconv\<close> reports \<open>*NumError{Func, Num, Err}\<close> with \<open>Err\<close> one of
  \<open>ErrSyntax\<close> and \<open>ErrRange\<close>. \<open>common.NewErrorf\<close> builds an error from its
  formatted message. \<open>ErrRecordNotFound\<close> is what the query for one row returns when no
  row matches; every other failure of the database is a \<open>StorageError\<close> with the
  database's own message.
\<close>

datatype NumErr = ErrSyntax | ErrRange

datatype error =
    ErrRecordNotFound
  | StorageError string
  | NumError string string NumErr
  | NewError string
  | MultiError "error list"

subsection \<open>strconv and fmt\<close>

definition is_digit :: "char \<Rightarrow> bool" where
  "is_digit c = (48 \<le> (of_char c :: nat) \<and> (of_char c :: nat) \<le> 57)"

definition digit_val :: "char \<Rightarrow> nat" where
  "digit_val c = of_char c - 48"

text \<open>
  The digit loop of \<open>strconv.ParseUint\<close> in base 10: a byte that is not a digit is a
  syntax error, and the first digit that takes the number past \<open>maxVal\<close> a range error
  (the loop returns there, before it looks at the bytes that follow).
\<close>

fun ParseUint_loop :: "nat \<Rightarrow> nat \<Rightarrow> string \<Rightarrow> NumErr + nat" where
  "ParseUint_loop maxVal n [] = Inr n"
| "ParseUint_loop maxVal n (c # cs) =
     (if \<not> is_digit c then Inl ErrSyntax
      else if n * 10 + digit_val c > maxVal then Inl ErrRange
      else ParseUint_loop maxVal (n * 10 + digit_val c) cs)"

definition ParseUint :: "string \<Rightarrow> nat \<Rightarrow> NumErr + nat" where
  "ParseUint s bitSize =
     (if s = [] then Inl ErrSyntax else ParseUint_loop (2 ^ bitSize - 1) 0 s)"

text \<open>
  \<open>strconv.ParseInt(s, 10, bitSize)\<close>: an optional sign, then \<open>ParseUint\<close>; a range
  error of \<open>ParseUint\<close> leaves \<open>un = maxVal\<close>, which the cutoff test below turns into
  a range error again.
\<close>

definition ParseInt_kind :: "string \<Rightarrow> nat \<Rightarrow> NumErr + int" where
  "ParseInt_kind s bitSize =
     (if s = [] then Inl ErrSyntax
      else
        let neg = (hd s = CHR ''-'');
            s1 = (if hd s = CHR ''+'' \<or> hd s = CHR ''-'' then tl s else s);
            cutoff = (2::nat) ^ (bitSize - 1)
        in case ParseUint s1 bitSize of
             Inl ErrSyntax \<Rightarrow> Inl ErrSyntax
           | r \<Rightarrow>
              (let un = (case r of Inr n \<Rightarrow> n | Inl _ \<Rightarrow> 2 ^ bitSize - 1)
               in if \<not> neg \<and> un \<ge> cutoff then Inl ErrRange
                  else if neg \<and> un > cutoff then Inl ErrRange
                  else Inr (if neg then - int un else int un)))"

definition ParseInt :: "string \<Rightarrow> nat \<Rightarrow> error + int" where
  "ParseInt s bitSize =
     (case ParseInt_kind s bitSize of
        Inl k \<Rightarrow> Inl (NumError ''ParseInt'' s k)
      | Inr n \<Rightarrow> Inr n)"

text \<open>\<open>strconv.Atoi\<close> on a 64-bit platform: \<open>ParseInt(s, 10, 0)\<close> reported as \<open>Atoi\<close>.\<close>

definition Atoi :: "string \<Rightarrow> error + int" where
  "Atoi s =
     (case ParseInt_kind s 64 of
        Inl k \<Rightarrow> Inl (NumError ''Atoi'' s k)
      | Inr n \<Rightarrow> Inr n)"

text \<open>Decimal formatting of \<open>strconv.Itoa\<close>, which \<open>fmt.Sprint\<close> uses for an \<open>int\<close>.\<close>

definition digit_char :: "nat \<Rightarrow> char" where
  "digit_char d = ''0123456789'' ! d"

fun digits :: "nat \<Rightarrow> string" where
  "digits n =
     (if n < 10 then [digit_char n]
      else digits (n div 10) @ [digit_char (n mod 10)])"

declare digits.simps [simp del]

definition Itoa :: "int \<Rightarrow> string" where
  "Itoa n = (if n < 0 then CHR ''-'' # digits (nat (- n)) else digits (nat n))"

definition HasPrefix :: "string \<Rightarrow> string \<Rightarrow> bool" where
  "HasPrefix s p = (length s \<ge> length p \<and> take (length p) s = p)"

definition HasSuffix :: "string \<Rightarrow> string \<Rightarrow> bool" where
  "HasSuffix s p = (length s \<ge> length p \<and> drop (length s - length p) s = p)"

subsection \<open>The aggregate and its fields\<close>

text \<open>
  Modelled from the spec: \<open>entity.AllSetting\<close> and \<open>reflect_util.GetFields\<close> are not
  among the sources. A field is what reflection gives for it: its name, the value of its
  \<open>json\<close> tag (the external key; empty when the field has none) and its type. The
  service distinguishes \<open>int\<close>, \<open>string\<close> and every other type; a value of another
  type is kept as the text \<open>fmt.Sprint\<close> prints for it, and such a type is named by the
  text of its zero value. The aggregate maps each field name to the field's value; only
  the names of declared fields are ever read.
\<close>

datatype gotype = TInt | TString | TOther string

datatype fvalue = VInt int | VStr string | VOther string

record StructField =
  Name :: string
  Tag_json :: string
  Type :: gotype

type_synonym AllSetting = "string \<Rightarrow> fvalue"

fun zero :: "gotype \<Rightarrow> fvalue" where
  "zero TInt = VInt 0"
| "zero TString = VStr []"
| "zero (TOther z) = VOther z"

fun type_of :: "fvalue \<Rightarrow> gotype \<Rightarrow> bool" where
  "type_of (VInt _) t = (t = TInt)"
| "type_of (VStr _) t = (t = TString)"
| "type_of (VOther _) t = (\<exists>z. t = TOther z)"

text \<open>\<open>&entity.AllSetting{}\<close>: every field at the zero value of its type.\<close>

definition new_AllSetting :: "StructField list \<Rightarrow> AllSetting" where
  "new_AllSetting flds =
     (\<lambda>n. case find (\<lambda>f. Name f = n) flds of
             Some f \<Rightarrow> zero (Type f)
           | None \<Rightarrow> VStr [])"

text \<open>\<open>fmt.Sprint\<close> of a field's value: an \<open>int\<close> in decimal, a \<open>string\<close> as it is.\<close>

fun Sprint :: "fvalue \<Rightarrow> string" where
  "Sprint (VInt n) = Itoa n"
| "Sprint (VStr s) = s"
| "Sprint (VOther t) = t"

subsection \<open>The store\<close>

text \<open>
  Modelled from the spec: the packages \<open>database\<close> and \<open>model\<close> are not among the
  sources. The table is the list of its rows in the order the database returns them. A
  database call can fail: \<open>faults\<close> holds the outcomes of the calls to come, one per
  call, \<open>Some msg\<close> for a call that fails with the message \<open>msg\<close>, and no fault once
  the list is used up. \<open>dispatched\<close> records the uploads handed to a goroutine, with
  the data each is started on; the request the goroutine then sends is not part of the
  model.
\<close>

record Setting =
  Key :: string
  Value :: string

datatype upload =
    SettingUpload string string
  | BulkUpload "(string \<times> fvalue) list"

record store =
  settings :: "Setting list"
  faults :: "string option list"
  dispatched :: "upload list"

definition next_fault :: "store \<Rightarrow> string option \<times> store" where
  "next_fault s =
     (case faults s of
        [] \<Rightarrow> (None, s)
      | f # fs \<Rightarrow> (f, s\<lparr>faults := fs\<rparr>))"

definition IsNotFound :: "error \<Rightarrow> bool" where
  "IsNotFound err = (err = ErrRecordNotFound)"

text \<open>\<open>db.Model(model.Setting{}).Find(&settings)\<close>\<close>

definition db_Find :: "store \<Rightarrow> (error + Setting list) \<times> store" where
  "db_Find s =
     (case next_fault s of
        (Some msg, s') \<Rightarrow> (Inl (StorageError msg), s')
      | (None, s') \<Rightarrow> (Inr (settings s'), s'))"

text \<open>\<open>db.Model(model.Setting{}).Where("key = ?", key).First(setting)\<close>\<close>

definition db_First :: "string \<Rightarrow> store \<Rightarrow> (error + Setting) \<times> store" where
  "db_First key s =
     (case next_fault s of
        (Some msg, s') \<Rightarrow> (Inl (StorageError msg), s')
      | (None, s') \<Rightarrow>
          (case find (\<lambda>r. Key r = key) (settings s') of
             None \<Rightarrow> (Inl ErrRecordNotFound, s')
           | Some r \<Rightarrow> (Inr r, s')))"

text \<open>\<open>db.Create(&model.Setting{...})\<close>: a new row after the others.\<close>

definition db_Create :: "Setting \<Rightarrow> store \<Rightarrow> error option \<times> store" where
  "db_Create r s =
     (case next_fault s of
        (Some msg, s') \<Rightarrow> (Some (StorageError msg), s')
      | (None, s') \<Rightarrow> (None, s'\<lparr>settings := settings s' @ [r]\<rparr>))"

text \<open>\<open>db.Save(setting)\<close> of a row that \<open>First\<close> returned: that row is overwritten in place.\<close>

fun overwrite :: "Setting \<Rightarrow> Setting list \<Rightarrow> Setting list" where
  "overwrite r [] = []"
| "overwrite r (x # xs) = (if Key x = Key r then r # xs else x # overwrite r xs)"

definition db_Save :: "Setting \<Rightarrow> store \<Rightarrow> error option \<times> store" where
  "db_Save r s =
     (case next_fault s of
        (Some msg, s') \<Rightarrow> (Some (StorageError msg), s')
      | (None, s') \<Rightarrow> (None, s'\<lparr>settings := overwrite r (settings s')\<rparr>))"

subsection \<open>The default catalogue\<close>

text \<open>
  \<open>defaultValueMap\<close>, in the order of the source. The embedded \<open>config.json\<close> and the
  result of \<open>random.Seq(32)\<close> are fixed when the process starts and are parameters here.
  A Go map has no iteration order: a function that ranges over the map takes the entries
  in the order of that run.
\<close>

definition defaultValueMap :: "string \<Rightarrow> string \<Rightarrow> (string \<times> string) list" where
  "defaultValueMap xrayTemplateConfig secret =
     [(''xrayTemplateConfig'', xrayTemplateConfig),
      (''webListen'', ''''),
      (''webPort'', ''54321''),
      (''webCertFile'', ''''),
      (''webKeyFile'', ''''),
      (''secret'', secret),
      (''webBasePath'', ''/''),
      (''timeLocation'', ''Asia/Shanghai'')]"

subsection \<open>Uploads\<close>

definition uploadToFirestore :: "string \<Rightarrow> string \<Rightarrow> store \<Rightarrow> store" where
  "uploadToFirestore key value s = s\<lparr>dispatched := dispatched s @ [SettingUpload key value]\<rparr>"

text \<open>The batch leaves out every field whose \<open>json\<close> tag is empty.\<close>

definition uploadAllSettingsToFirestore :: "StructField list \<Rightarrow> AllSetting \<Rightarrow> store \<Rightarrow> store" where
  "uploadAllSettingsToFirestore flds allSetting s =
     s\<lparr>dispatched := dispatched s @
         [BulkUpload (map (\<lambda>field. (Tag_json field, allSetting (Name field)))
                        (filter (\<lambda>field. Tag_json field \<noteq> []) flds))]\<rparr>"

subsection \<open>Reading the aggregate\<close>

text \<open>
  The closure \<open>setSetting\<close> of \<open>GetAllSetting\<close>: the first field whose \<open>json\<close> tag is
  the key; no such field is not an error. The switch is on the type of the field's
  current value.
\<close>

definition setSetting :: "StructField list \<Rightarrow> AllSetting \<Rightarrow> string \<Rightarrow> string \<Rightarrow> error + AllSetting" where
  "setSetting flds v key value =
     (case find (\<lambda>f. Tag_json f = key) flds of
        None \<Rightarrow> Inr v
      | Some field \<Rightarrow>
          (case v (Name field) of
             VInt _ \<Rightarrow>
               (case ParseInt value 32 of
                  Inl err \<Rightarrow> Inl err
                | Inr n \<Rightarrow> Inr (v(Name field := VInt n)))
           | VStr _ \<Rightarrow> Inr (v(Name field := VStr value))
           | VOther t \<Rightarrow> Inl (NewError (''unknown field '' @ key @ '' type '' @ t))))"

text \<open>The loop over the stored rows, with \<open>keyMap\<close> as the set of keys it holds.\<close>

fun apply_rows ::
  "StructField list \<Rightarrow> AllSetting \<Rightarrow> string set \<Rightarrow> Setting list \<Rightarrow> error + (AllSetting \<times> string set)" where
  "apply_rows flds v keyMap [] = Inr (v, keyMap)"
| "apply_rows flds v keyMap (setting # rest) =
     (case setSetting flds v (Key setting) (Value setting) of
        Inl err \<Rightarrow> Inl err
      | Inr v' \<Rightarrow> apply_rows flds v' (insert (Key setting) keyMap) rest)"

text \<open>The loop over \<open>defaultValueMap\<close>, in the order \<open>dvm\<close> of this run.\<close>

fun apply_defaults ::
  "StructField list \<Rightarrow> AllSetting \<Rightarrow> string set \<Rightarrow> (string \<times> string) list \<Rightarrow> error + AllSetting" where
  "apply_defaults flds v keyMap [] = Inr v"
| "apply_defaults flds v keyMap ((key, value) # rest) =
     (if key \<in> keyMap then apply_defaults flds v keyMap rest
      else
        (case setSetting flds v key value of
           Inl err \<Rightarrow> Inl err
         | Inr v' \<Rightarrow> apply_defaults flds v' keyMap rest))"

definition GetAllSetting ::
  "StructField list \<Rightarrow> (string \<times> string) list \<Rightarrow> store \<Rightarrow> (error + AllSetting) \<times> store" where
  "GetAllSetting flds dvm s =
     (case db_Find s of
        (Inl err, s') \<Rightarrow> (Inl err, s')
      | (Inr rows, s') \<Rightarrow>
          (case apply_rows flds (new_AllSetting flds) {} rows of
             Inl err \<Rightarrow> (Inl err, s')
           | Inr (v, keyMap) \<Rightarrow>
               (case apply_defaults flds v keyMap dvm of
                  Inl err \<Rightarrow> (Inl err, s')
                | Inr v' \<Rightarrow> (Inr v', s'))))"

subsection \<open>Single rows\<close>

definition getSetting :: "string \<Rightarrow> store \<Rightarrow> (error + Setting) \<times> store" where
  "getSetting key s = db_First key s"

definition saveSetting :: "string \<Rightarrow> string \<Rightarrow> store \<Rightarrow> error option \<times> store" where
  "saveSetting key value s =
     (case getSetting key s of
        (Inl err, s1) \<Rightarrow>
          (if IsNotFound err then
             (case db_Create \<lparr>Key = key, Value = value\<rparr> s1 of
                (None, s2) \<Rightarrow> (None, uploadToFirestore key value s2)
              | (Some err', s2) \<Rightarrow> (Some err', s2))
           else (Some err, s1))
      | (Inr setting, s1) \<Rightarrow>
          (case db_Save (setting\<lparr>Key := key, Value := value\<rparr>) s1 of
             (None, s2) \<Rightarrow> (None, uploadToFirestore key value s2)
           | (Some err', s2) \<Rightarrow> (Some err', s2)))"

definition getString :: "(string \<times> string) list \<Rightarrow> string \<Rightarrow> store \<Rightarrow> (error + string) \<times> store" where
  "getString dvm key s =
     (case getSetting key s of
        (Inl err, s1) \<Rightarrow>
          (if IsNotFound err then
             (case map_of dvm key of
                None \<Rightarrow> (Inl (NewError (''key <'' @ key @ ''> not in defaultValueMap'')), s1)
              | Some value \<Rightarrow> (Inr value, s1))
           else (Inl err, s1))
      | (Inr setting, s1) \<Rightarrow> (Inr (Value setting), s1))"

definition getInt :: "(string \<times> string) list \<Rightarrow> string \<Rightarrow> store \<Rightarrow> (error + int) \<times> store" where
  "getInt dvm key s =
     (case getString dvm key s of
        (Inl err, s1) \<Rightarrow> (Inl err, s1)
      | (Inr str, s1) \<Rightarrow> (Atoi str, s1))"

subsection \<open>Derived accessors\<close>

text \<open>
  \<open>GetSecret\<close> does not look at the error of \<open>getString\<close> before it compares: on an
  error the string is empty. A failed save is logged and otherwise ignored.
\<close>

definition GetSecret :: "(string \<times> string) list \<Rightarrow> store \<Rightarrow> (error option \<times> string) \<times> store" where
  "GetSecret dvm s =
     (let (r, s1) = getString dvm ''secret'' s;
          secret = (case r of Inl _ \<Rightarrow> [] | Inr str \<Rightarrow> str);
          err = (case r of Inl e \<Rightarrow> Some e | Inr _ \<Rightarrow> None);
          s2 = (if secret = (case map_of dvm ''secret'' of None \<Rightarrow> [] | Some d \<Rightarrow> d)
                then snd (saveSetting ''secret'' secret s1) else s1)
      in ((err, secret), s2))"

definition GetBasePath :: "(string \<times> string) list \<Rightarrow> store \<Rightarrow> (error + string) \<times> store" where
  "GetBasePath dvm s =
     (case getString dvm ''webBasePath'' s of
        (Inl err, s1) \<Rightarrow> (Inl err, s1)
      | (Inr basePath, s1) \<Rightarrow>
          (let basePath1 = (if \<not> HasPrefix basePath ''/'' then ''/'' @ basePath else basePath);
               basePath2 = (if \<not> HasSuffix basePath1 ''/'' then basePath1 @ ''/'' else basePath1)
           in (Inr basePath2, s1)))"

subsection \<open>Writing the aggregate\<close>

text \<open>
  Modelled from the spec: \<open>common.Combine\<close> is not among the sources. It gives no error
  for no errors and otherwise one error that holds them all.
\<close>

definition Combine :: "error list \<Rightarrow> error option" where
  "Combine errs = (if errs = [] then None else Some (MultiError errs))"

text \<open>The field loop of \<open>UpdateAllSetting\<close>: every field is saved, an error is collected.\<close>

fun save_fields ::
  "StructField list \<Rightarrow> AllSetting \<Rightarrow> error list \<Rightarrow> store \<Rightarrow> error list \<times> store" where
  "save_fields [] v errs s = (errs, s)"
| "save_fields (field # rest) v errs s =
     (let key = Tag_json field;
          value = Sprint (v (Name field))
      in case saveSetting key value s of
           (Some err, s') \<Rightarrow> save_fields rest v (errs @ [err]) s'
         | (None, s') \<Rightarrow> save_fields rest v errs s')"

text \<open>
  \<open>CheckValid\<close> belongs to \<open>entity.AllSetting\<close>, which is not among the sources. It
  is a parameter here: the error of the aggregate's self-check, if there is one, with the
  aggregate left as it is.
\<close>

definition UpdateAllSetting ::
  "(AllSetting \<Rightarrow> error option) \<Rightarrow> StructField list \<Rightarrow> AllSetting \<Rightarrow> store \<Rightarrow> error option \<times> store" where
  "UpdateAllSetting CheckValid flds allSetting s =
     (case CheckValid allSetting of
        Some err \<Rightarrow> (Some err, s)
      | None \<Rightarrow>
          (case save_fields flds allSetting [] s of
             (errs, s') \<Rightarrow>
               (Combine errs,
                if length errs = 0 then uploadAllSettingsToFirestore flds allSetting s' else s')))"

section \<open>Notions used to state the properties\<close>

subsection \<open>Decimal numerals\<close>

text \<open>
  A base-10 integer as a text: an optional sign and at least one digit. Its value is
  read independently of \<open>ParseUint_loop\<close>, with no bound on its size.
\<close>

definition all_digits :: "string \<Rightarrow> bool" where
  "all_digits s = (s \<noteq> [] \<and> list_all is_digit s)"

definition digits_value :: "string \<Rightarrow> nat" where
  "digits_value s = foldl (\<lambda>n c. n * 10 + digit_val c) 0 s"

definition valid_decimal :: "string \<Rightarrow> bool" where
  "valid_decimal s =
     (case s of
        [] \<Rightarrow> False
      | c # cs \<Rightarrow> if c = CHR ''+'' \<or> c = CHR ''-'' then all_digits cs else all_digits s)"

definition decimal_value :: "string \<Rightarrow> int" where
  "decimal_value s =
     (case s of
        [] \<Rightarrow> 0
      | c # cs \<Rightarrow>
          if c = CHR ''-'' then - int (digits_value cs)
          else if c = CHR ''+'' then int (digits_value cs)
          else int (digits_value s))"

subsection \<open>Well-typed aggregates and the value a text denotes\<close>

text \<open>
  An aggregate is well typed when every declared field holds a value of the field's
  type, as the Go type checker ensures. \<open>decode\<close> is the value that the switch of
  \<open>setSetting\<close> assigns to a field of a type from a text, if it assigns one.
\<close>

definition typed :: "StructField list \<Rightarrow> AllSetting \<Rightarrow> bool" where
  "typed flds v = (\<forall>f \<in> set flds. type_of (v (Name f)) (Type f))"

fun decode :: "gotype \<Rightarrow> string \<Rightarrow> fvalue option" where
  "decode TInt value = (case ParseInt value 32 of Inl _ \<Rightarrow> None | Inr n \<Rightarrow> Some (VInt n))"
| "decode TString value = Some (VStr value)"
| "decode (TOther z) value = None"

text \<open>
  The errors that applying a stored row can give: the parse error of the row's value, or
  the error for a field that is neither \<open>int\<close> nor \<open>string\<close>.
\<close>

definition read_error :: "Setting list \<Rightarrow> error \<Rightarrow> bool" where
  "read_error rows err =
     (\<exists>row \<in> set rows.
        (\<exists>k. err = NumError ''ParseInt'' (Value row) k) \<or>
        (\<exists>t. err = NewError (''unknown field '' @ Key row @ '' type '' @ t)))"

subsection \<open>The outcome of each save of the field loop\<close>

text \<open>
  The result of every \<open>saveSetting\<close> call that the loop of \<open>UpdateAllSetting\<close> makes,
  in the order of the fields; \<open>save_fields\<close> keeps only the errors among them.
\<close>

fun save_results :: "StructField list \<Rightarrow> AllSetting \<Rightarrow> store \<Rightarrow> error option list" where
  "save_results [] v s = []"
| "save_results (field # rest) v s =
     (case saveSetting (Tag_json field) (Sprint (v (Name field))) s of
        (r, s') \<Rightarrow> r # save_results rest v s')"

subsection \<open>The rows of an aggregate\<close>



subsection \<open>Texts carried by an error\<close>

text \<open>\<open>strings.Contains\<close>, and whether a key occurs in one of the texts an error carries.\<close>

fun Contains :: "string \<Rightarrow> string \<Rightarrow> bool" where
  "Contains [] sub = (sub = [])"
| "Contains (c # cs) sub = (take (length sub) (c # cs) = sub \<or> Contains cs sub)"

fun error_texts :: "error \<Rightarrow> string list" where
  "error_texts ErrRecordNotFound = [''record not found'']"
| "error_texts (StorageError msg) = [msg]"
| "error_texts (NumError fn num k) = [fn, num]"
| "error_texts (NewError msg) = [msg]"
| "error_texts (MultiError errs) = concat (map error_texts errs)"

definition names_key :: "error \<Rightarrow> string \<Rightarrow> bool" where
  "names_key err key = list_ex (\<lambda>t. Contains t key) (error_texts err)"

subsection \<open>Example inputs\<close>

definition example_catalogue :: "(string \<times> string) list" where
  "example_catalogue = defaultValueMap ''{}'' ''Xk29''"

definition example_fields :: "StructField list" where
  "example_fields =
     [\<lparr>Name = ''WebListen'', Tag_json = ''webListen'', Type = TString\<rparr>,
      \<lparr>Name = ''WebPort'', Tag_json = ''webPort'', Type = TInt\<rparr>]"

definition example_setting :: AllSetting where
  "example_setting = (\<lambda>n. if n = ''WebPort'' then VInt 8080 else VStr ''0.0.0.0'')"

definition always_valid :: "AllSetting \<Rightarrow> error option" where
  "always_valid v = None"

definition port_check :: "AllSetting \<Rightarrow> error option" where
  "port_check v =
     (case v ''WebPort'' of
        VInt n \<Rightarrow>
          if n \<le> 0 \<or> n > 65535 then Some (NewError ''web port is not a valid port'') else None
      | _ \<Rightarrow> None)"

definition empty_store :: store where
  "empty_store = \<lparr>settings = [], faults = [], dispatched = []\<rparr>"

section \<open>Auxiliary facts\<close>

subsection \<open>strconv\<close>

lemma foldl_step_ge: "n \<le> foldl (\<lambda>n c. n * 10 + digit_val c) n cs"
proof (induction cs arbitrary: n)
  case Nil
  show ?case by simp
next
  case (Cons c cs)
  have "n \<le> n * 10 + digit_val c" by simp
  also have "\<dots> \<le> foldl (\<lambda>n c. n * 10 + digit_val c) (n * 10 + digit_val c) cs"
    by (rule Cons.IH)
  finally show ?case by simp
qed

lemma ParseUint_loop_digits:
  "list_all is_digit cs \<Longrightarrow> n \<le> m \<Longrightarrow>
   ParseUint_loop m n cs =
     (if foldl (\<lambda>n c. n * 10 + digit_val c) n cs \<le> m
      then Inr (foldl (\<lambda>n c. n * 10 + digit_val c) n cs) else Inl ErrRange)"
proof (induction cs arbitrary: n)
  case Nil
  then show ?case by simp
next
  case (Cons c cs)
  from Cons.prems have c: "is_digit c" and cs: "list_all is_digit cs" by simp_all
  let ?n1 = "n * 10 + digit_val c"
  show ?case
  proof (cases "?n1 > m")
    case True
    have "?n1 \<le> foldl (\<lambda>n c. n * 10 + digit_val c) ?n1 cs" by (rule foldl_step_ge)
    with True have "\<not> foldl (\<lambda>n c. n * 10 + digit_val c) ?n1 cs \<le> m" by linarith
    with True c show ?thesis by simp
  next
    case False
    then have "?n1 \<le> m" by simp
    from Cons.IH [OF cs this] c False show ?thesis by simp
  qed
qed

lemma ParseUint_loop_nondigit:
  "\<not> list_all is_digit cs \<Longrightarrow> \<exists>k. ParseUint_loop m n cs = Inl k"
  by (induction cs arbitrary: n) auto

lemma ParseUint_all_digits:
  "all_digits s \<Longrightarrow>
   ParseUint s b = (if digits_value s \<le> 2 ^ b - 1 then Inr (digits_value s) else Inl ErrRange)"
  by (simp add: ParseUint_def all_digits_def digits_value_def ParseUint_loop_digits)

lemma ParseUint_not_all_digits:
  "\<not> all_digits s \<Longrightarrow> \<exists>k. ParseUint s b = Inl k"
  using ParseUint_loop_nondigit [of s "2 ^ b - 1" 0]
  by (auto simp: ParseUint_def all_digits_def)

lemma all_digits_no_sign: "all_digits s \<Longrightarrow> hd s \<noteq> CHR ''+'' \<and> hd s \<noteq> CHR ''-''"
  by (cases s) (auto simp: all_digits_def is_digit_def)

lemma ParseInt_kind_valid:
  assumes "valid_decimal s" and "1 < b"
  shows "ParseInt_kind s b =
     (if - (2 ^ (b - 1)) \<le> decimal_value s \<and> decimal_value s < 2 ^ (b - 1)
      then Inr (decimal_value s) else Inl ErrRange)"
proof -
  define C :: nat where "C = 2 ^ (b - Suc 0)"
  obtain b' where b': "b = Suc (Suc b')" using assms(2) by (cases b; cases "b - 1") auto
  have "(1::nat) \<le> 2 ^ b'" by simp
  then have C: "2 \<le> C" by (simp add: C_def b')
  have c1: "(2::nat) ^ (b - Suc 0) = C" by (simp add: C_def)
  have c2: "(2::nat) ^ b = 2 * C" using assms(2) by (cases b) (simp_all add: C_def)
  have c3: "(2::int) ^ (b - Suc 0) = int C" by (simp add: C_def)
  obtain c cs where s: "s = c # cs" using assms(1) by (cases s) (auto simp: valid_decimal_def)
  define s1 where "s1 = (if c = CHR ''+'' \<or> c = CHR ''-'' then cs else s)"
  define dv where "dv = digits_value s1"
  have d: "all_digits s1" using assms(1) by (simp add: valid_decimal_def s1_def s)
  have u: "ParseUint s1 b = (if dv \<le> 2 * C - 1 then Inr dv else Inl ErrRange)"
    using ParseUint_all_digits [OF d, of b] by (simp add: c2 dv_def)
  have v: "decimal_value s = (if c = CHR ''-'' then - int dv else int dv)"
    by (simp add: decimal_value_def s s1_def dv_def)
  have k: "ParseInt_kind s b =
      (case ParseUint s1 b of
         Inl ErrSyntax \<Rightarrow> Inl ErrSyntax
       | Inl ErrRange \<Rightarrow> Inl ErrRange
       | Inr un \<Rightarrow>
           if c \<noteq> CHR ''-'' \<and> un \<ge> C then Inl ErrRange
           else if c = CHR ''-'' \<and> un > C then Inl ErrRange
           else Inr (if c = CHR ''-'' then - int un else int un))"
    using C by (auto simp: ParseInt_kind_def s s1_def c1 c2 Let_def split: sum.splits NumErr.splits)
  show ?thesis
  proof (cases "dv \<le> 2 * C - 1")
    case True
    then have "ParseUint s1 b = Inr dv" by (simp add: u)
    then show ?thesis unfolding k v using C by (auto simp: c3)
  next
    case False
    then have "ParseUint s1 b = Inl ErrRange" by (simp add: u)
    then show ?thesis unfolding k v using C False by (auto simp: c3)
  qed
qed

lemma ParseInt_kind_invalid:
  assumes "\<not> valid_decimal s" and "1 < b"
  shows "\<exists>k. ParseInt_kind s b = Inl k"
proof (cases s)
  case Nil
  then show ?thesis by (simp add: ParseInt_kind_def)
next
  case (Cons c cs)
  define s1 where "s1 = (if c = CHR ''+'' \<or> c = CHR ''-'' then cs else s)"
  from assms Cons have "\<not> all_digits s1"
    by (auto simp: valid_decimal_def s1_def split: if_splits)
  then obtain k where k: "ParseUint s1 b = Inl k"
    using ParseUint_not_all_digits by blast
  have "(2::nat) ^ (b - 1) < 2 ^ b - 1"
  proof -
    from assms(2) obtain b' where b': "b = Suc (Suc b')" by (cases b; cases "b - 1") auto
    have "(1::nat) \<le> 2 ^ b'" by simp
    then have "2 * (2::nat) ^ b' < 4 * 2 ^ b' - 1" by linarith
    then show ?thesis by (simp add: b')
  qed
  then show ?thesis using Cons k
    by (cases k) (auto simp: ParseInt_kind_def s1_def Let_def)
qed

lemma digit_char_props:
  assumes "d < 10"
  shows "is_digit (digit_char d) \<and> digit_val (digit_char d) = d"
proof -
  from assms have "d = 0 \<or> d = 1 \<or> d = 2 \<or> d = 3 \<or> d = 4 \<or> d = 5 \<or> d = 6 \<or> d = 7 \<or> d = 8 \<or> d = 9"
    by arith
  then show ?thesis
    by (elim disjE) (simp_all add: digit_char_def is_digit_def digit_val_def)
qed

lemma digits_all: "list_all is_digit (digits n) \<and> digits n \<noteq> []"
proof (induction n rule: digits.induct)
  case (1 n)
  show ?case
  proof (cases "n < 10")
    case True
    then show ?thesis by (subst (1 2) digits.simps) (simp add: digit_char_props)
  next
    case False
    have "n mod 10 < 10" by simp
    then have "is_digit (digit_char (n mod 10))" by (simp only: digit_char_props)
    with False 1 show ?thesis by (subst (1 2) digits.simps) simp
  qed
qed

lemma digits_value_digits: "digits_value (digits n) = n"
proof (induction n rule: digits.induct)
  case (1 n)
  show ?case
  proof (cases "n < 10")
    case True
    then show ?thesis by (subst digits.simps) (simp add: digits_value_def digit_char_props)
  next
    case False
    have "n mod 10 < 10" by simp
    then have "digit_val (digit_char (n mod 10)) = n mod 10" by (simp only: digit_char_props)
    with False 1 show ?thesis by (subst digits.simps) (simp add: digits_value_def)
  qed
qed

lemma valid_decimal_Itoa: "valid_decimal (Itoa n)"
proof (cases "n < 0")
  case True
  then show ?thesis using digits_all [of "nat (- n)"]
    by (simp add: Itoa_def valid_decimal_def all_digits_def)
next
  case False
  have a: "all_digits (digits (nat n))" using digits_all by (simp add: all_digits_def)
  from all_digits_no_sign [OF a] a False show ?thesis
    by (cases "digits (nat n)") (auto simp: Itoa_def valid_decimal_def all_digits_def)
qed

lemma decimal_value_Itoa: "decimal_value (Itoa n) = n"
proof (cases "n < 0")
  case True
  then show ?thesis by (simp add: Itoa_def decimal_value_def digits_value_digits)
next
  case False
  have a: "all_digits (digits (nat n))" using digits_all by (simp add: all_digits_def)
  from all_digits_no_sign [OF a] a False digits_value_digits [of "nat n"] show ?thesis
    by (cases "digits (nat n)") (auto simp: Itoa_def decimal_value_def all_digits_def)
qed

lemma ParseInt_Itoa:
  "- (2 ^ 31) \<le> n \<Longrightarrow> n < 2 ^ 31 \<Longrightarrow> ParseInt (Itoa n) 32 = Inr n"
  by (simp add: ParseInt_def ParseInt_kind_valid [OF valid_decimal_Itoa] decimal_value_Itoa)

lemma Atoi_Itoa:
  "- (2 ^ 63) \<le> n \<Longrightarrow> n < 2 ^ 63 \<Longrightarrow> Atoi (Itoa n) = Inr n"
  by (simp add: Atoi_def ParseInt_kind_valid [OF valid_decimal_Itoa] decimal_value_Itoa)

lemma Itoa_8080: "Itoa 8080 = ''8080''" by (simp add: Itoa_def digits.simps digit_char_def)

subsection \<open>The store\<close>

lemma next_fault_cases:
  "next_fault s = (f, s') \<Longrightarrow>
     settings s' = settings s \<and> dispatched s' = dispatched s \<and>
     ((faults s = [] \<and> f = None \<and> s' = s) \<or> (faults s = f # faults s'))"
  by (auto simp: next_fault_def split: list.splits)

lemma next_fault_None:
  "fst (next_fault s) = None \<Longrightarrow> \<exists>s'. next_fault s = (None, s') \<and> settings s' = settings s \<and> dispatched s' = dispatched s \<and> faults s' = tl (faults s)"
  by (auto simp: next_fault_def split: list.splits)

lemma find_overwrite_same:
  "find (\<lambda>r. Key r = k) xs = Some x \<Longrightarrow> Key r = k \<Longrightarrow> find (\<lambda>r. Key r = k) (overwrite r xs) = Some r"
  by (induction xs) (auto split: if_splits)

lemma find_overwrite_other:
  "Key r \<noteq> k \<Longrightarrow> find (\<lambda>r. Key r = k) (overwrite r xs) = find (\<lambda>r. Key r = k) xs"
  by (induction xs) auto

lemma map_Key_overwrite: "map Key (overwrite r xs) = map Key xs"
  by (induction xs) auto

lemma find_append_new:
  "find P xs = None \<Longrightarrow> find P (xs @ [r]) = (if P r then Some r else None)"
  by (induction xs) (auto split: if_splits)

lemma find_Key_None: "find (\<lambda>r. Key r = k) xs = None \<longleftrightarrow> k \<notin> Key ` set xs"
  by (induction xs) auto

subsection \<open>getString\<close>

lemma getString_row:
  assumes "fst (next_fault s) = None" and "find (\<lambda>r. Key r = key) (settings s) = Some row"
  shows "\<exists>s1. getString dvm key s = (Inr (Value row), s1) \<and> settings s1 = settings s \<and> dispatched s1 = dispatched s \<and> faults s1 = tl (faults s)"
  using next_fault_None [OF assms(1)] assms(2)
  by (auto simp: getString_def getSetting_def db_First_def)

lemma getString_default:
  assumes "fst (next_fault s) = None" and "find (\<lambda>r. Key r = key) (settings s) = None"
  shows "\<exists>s1. getString dvm key s =
     ((case map_of dvm key of
         None \<Rightarrow> Inl (NewError (''key <'' @ key @ ''> not in defaultValueMap''))
       | Some d \<Rightarrow> Inr d), s1) \<and> settings s1 = settings s \<and> dispatched s1 = dispatched s \<and> faults s1 = tl (faults s)"
  using next_fault_None [OF assms(1)] assms(2)
  by (auto simp: getString_def getSetting_def db_First_def IsNotFound_def split: option.splits)

subsection \<open>saveSetting\<close>

lemma Setting_update_all: "row\<lparr>Key := key, Value := value\<rparr> = \<lparr>Key = key, Value = value\<rparr>"
  by (cases row) simp

lemma saveSetting_ok:
  assumes "saveSetting key value s = (None, s')"
  shows "find (\<lambda>r. Key r = key) (settings s') = Some \<lparr>Key = key, Value = value\<rparr>"
    and "dispatched s' = dispatched s @ [SettingUpload key value]"
proof -
  obtain r s1 where g: "db_First key s = (r, s1)" by (cases "db_First key s")
  obtain f0 t0 where n0: "next_fault s = (f0, t0)" by (cases "next_fault s")
  obtain f1 t1 where n1: "next_fault s1 = (f1, t1)" by (cases "next_fault s1")
  note c0 = next_fault_cases [OF n0] and c1 = next_fault_cases [OF n1]
  have "find (\<lambda>r. Key r = key) (settings s') = Some \<lparr>Key = key, Value = value\<rparr> \<and>
        dispatched s' = dispatched s @ [SettingUpload key value]"
  proof (cases r)
    case (Inl e)
    with g n0 have e: "e = ErrRecordNotFound" and nf: "find (\<lambda>r. Key r = key) (settings s) = None"
      and s1: "settings s1 = settings s" "dispatched s1 = dispatched s"
      using assms c0
      by (auto simp: saveSetting_def getSetting_def db_First_def IsNotFound_def
          split: option.splits if_splits prod.splits)
    from assms g Inl e n1 have "f1 = None" and s': "s' = uploadToFirestore key value (t1\<lparr>settings := settings t1 @ [\<lparr>Key = key, Value = value\<rparr>]\<rparr>)"
      by (auto simp: saveSetting_def getSetting_def db_Create_def IsNotFound_def split: option.splits)
    from s' c1 s1 nf show ?thesis
      by (simp add: uploadToFirestore_def find_append_new)
  next
    case (Inr row)
    with g n0 have fr: "find (\<lambda>r. Key r = key) (settings s) = Some row"
      and s1: "settings s1 = settings s" "dispatched s1 = dispatched s"
      using c0 by (auto simp: db_First_def split: option.splits)
    from assms g Inr n1 have "f1 = None" and s': "s' = uploadToFirestore key value (t1\<lparr>settings := overwrite (row\<lparr>Key := key, Value := value\<rparr>) (settings t1)\<rparr>)"
      by (auto simp: saveSetting_def getSetting_def db_Save_def split: option.splits)
    from s' c1 s1 fr show ?thesis
      by (simp add: uploadToFirestore_def find_overwrite_same Setting_update_all)
  qed
  then show "find (\<lambda>r. Key r = key) (settings s') = Some \<lparr>Key = key, Value = value\<rparr>"
    and "dispatched s' = dispatched s @ [SettingUpload key value]" by simp_all
qed

lemma saveSetting_settings:
  "settings (snd (saveSetting key value s)) = settings s \<or>
   (key \<notin> Key ` set (settings s) \<and> settings (snd (saveSetting key value s)) = settings s @ [\<lparr>Key = key, Value = value\<rparr>]) \<or>
   (key \<in> Key ` set (settings s) \<and> settings (snd (saveSetting key value s)) = overwrite \<lparr>Key = key, Value = value\<rparr> (settings s))"
proof -
  obtain r s1 where g: "db_First key s = (r, s1)" by (cases "db_First key s")
  obtain f0 t0 where n0: "next_fault s = (f0, t0)" by (cases "next_fault s")
  obtain f1 t1 where n1: "next_fault s1 = (f1, t1)" by (cases "next_fault s1")
  note c0 = next_fault_cases [OF n0] and c1 = next_fault_cases [OF n1]
  from g n0 c0 have s1: "settings s1 = settings s"
    by (auto simp: db_First_def split: option.splits)
  show ?thesis
  proof (cases r)
    case (Inl e)
    show ?thesis
    proof (cases "e = ErrRecordNotFound")
      case True
      with g n0 Inl have "find (\<lambda>r. Key r = key) (settings s) = None"
        using c0 by (auto simp: db_First_def split: option.splits)
      then have "key \<notin> Key ` set (settings s)" by (simp add: find_Key_None)
      with g Inl True n1 c1 s1 show ?thesis
        by (auto simp: saveSetting_def getSetting_def db_Create_def IsNotFound_def uploadToFirestore_def
            split: option.splits)
    next
      case False
      with g Inl s1 show ?thesis
        by (simp add: saveSetting_def getSetting_def IsNotFound_def)
    qed
  next
    case (Inr row)
    with g n0 have fr: "find (\<lambda>r. Key r = key) (settings s) = Some row"
      using c0 by (auto simp: db_First_def split: option.splits)
    then have "key \<in> Key ` set (settings s)" using find_Key_None [of key "settings s"] by auto
    with g Inr n1 c1 s1 show ?thesis
      by (auto simp: saveSetting_def getSetting_def db_Save_def uploadToFirestore_def Setting_update_all
          split: option.splits)
  qed
qed

lemma saveSetting_fail:
  assumes "saveSetting key value s = (Some e, s')"
  shows "settings s' = settings s \<and> dispatched s' = dispatched s \<and> (\<exists>msg. e = StorageError msg)"
proof -
  obtain r s1 where g: "db_First key s = (r, s1)" by (cases "db_First key s")
  obtain f0 t0 where n0: "next_fault s = (f0, t0)" by (cases "next_fault s")
  obtain f1 t1 where n1: "next_fault s1 = (f1, t1)" by (cases "next_fault s1")
  note c0 = next_fault_cases [OF n0] and c1 = next_fault_cases [OF n1]
  from g n0 c0 have s1: "settings s1 = settings s" "dispatched s1 = dispatched s"
    and r: "r = Inl ErrRecordNotFound \<or> (\<exists>msg. r = Inl (StorageError msg)) \<or> (\<exists>row. r = Inr row)"
    by (auto simp: db_First_def split: option.splits)
  from assms g n1 c1 s1 r show ?thesis
    by (auto simp: saveSetting_def getSetting_def db_Create_def db_Save_def IsNotFound_def
        split: option.splits)
qed

lemma find_append_other: "\<not> P r \<Longrightarrow> find P (xs @ [r]) = find P xs"
  by (induction xs) auto

lemma saveSetting_find_other:
  "k \<noteq> key \<Longrightarrow>
   find (\<lambda>r. Key r = k) (settings (snd (saveSetting key value s))) = find (\<lambda>r. Key r = k) (settings s)"
  using saveSetting_settings [of key "value" s]
  by (auto simp: find_overwrite_other find_append_other)

lemma saveSetting_distinct:
  "distinct (map Key (settings s)) \<Longrightarrow> distinct (map Key (settings (snd (saveSetting key value s))))"
  using saveSetting_settings [of key "value" s]
  by (auto simp: map_Key_overwrite)

subsection \<open>The field loop of UpdateAllSetting\<close>

lemma save_fields_settings_other:
  "k \<notin> Tag_json ` set flds \<Longrightarrow>
   find (\<lambda>r. Key r = k) (settings (snd (save_fields flds v errs s))) = find (\<lambda>r. Key r = k) (settings s)"
proof (induction flds arbitrary: errs s)
  case Nil
  show ?case by simp
next
  case (Cons f flds)
  obtain r s1 where r: "saveSetting (Tag_json f) (Sprint (v (Name f))) s = (r, s1)"
    by (cases "saveSetting (Tag_json f) (Sprint (v (Name f))) s")
  from Cons.prems have k: "k \<noteq> Tag_json f" "k \<notin> Tag_json ` set flds" by auto
  from saveSetting_find_other [OF k(1), of "Sprint (v (Name f))" s] r
  have "find (\<lambda>r. Key r = k) (settings s1) = find (\<lambda>r. Key r = k) (settings s)" by simp
  with Cons.IH [OF k(2)] r show ?case by (cases r) simp_all
qed

lemma save_fields_distinct:
  "distinct (map Key (settings s)) \<Longrightarrow> distinct (map Key (settings (snd (save_fields flds v errs s))))"
proof (induction flds arbitrary: errs s)
  case Nil
  then show ?case by simp
next
  case (Cons f flds)
  obtain r s1 where r: "saveSetting (Tag_json f) (Sprint (v (Name f))) s = (r, s1)"
    by (cases "saveSetting (Tag_json f) (Sprint (v (Name f))) s")
  from saveSetting_distinct [OF Cons.prems, of "Tag_json f" "Sprint (v (Name f))"] r
  have "distinct (map Key (settings s1))" by simp
  from Cons.IH [OF this] r show ?case by (cases r) simp_all
qed

lemma save_fields_errs:
  "fst (save_fields flds v errs s) = errs @ List.map_filter id (save_results flds v s)"
proof (induction flds arbitrary: errs s)
  case Nil
  show ?case by simp
next
  case (Cons f flds)
  obtain r s1 where r: "saveSetting (Tag_json f) (Sprint (v (Name f))) s = (r, s1)"
    by (cases "saveSetting (Tag_json f) (Sprint (v (Name f))) s")
  with Cons.IH show ?case by (cases r) simp_all
qed

lemma map_filter_id_Nil: "List.map_filter id rs = [] \<longleftrightarrow> (\<forall>r \<in> set rs. r = None)"
  by (induction rs) (auto split: option.splits)

lemma length_save_results: "length (save_results flds v s) = length flds"
  by (induction flds arbitrary: s) (auto split: prod.splits)

lemma save_results_storage:
  "Some e \<in> set (save_results flds v s) \<Longrightarrow> \<exists>msg. e = StorageError msg"
proof (induction flds arbitrary: s)
  case Nil
  then show ?case by simp
next
  case (Cons f flds)
  obtain r s1 where r: "saveSetting (Tag_json f) (Sprint (v (Name f))) s = (r, s1)"
    by (cases "saveSetting (Tag_json f) (Sprint (v (Name f))) s")
  from Cons.prems r have "r = Some e \<or> Some e \<in> set (save_results flds v s1)" by auto
  then show ?case
  proof
    assume "r = Some e"
    with r saveSetting_fail show ?thesis by blast
  next
    assume "Some e \<in> set (save_results flds v s1)"
    then show ?thesis by (rule Cons.IH)
  qed
qed

lemma save_fields_commit:
  "distinct (map Tag_json flds) \<Longrightarrow> i < length flds \<Longrightarrow> save_results flds v s ! i = None \<Longrightarrow>
   find (\<lambda>r. Key r = Tag_json (flds ! i)) (settings (snd (save_fields flds v errs s))) =
     Some \<lparr>Key = Tag_json (flds ! i), Value = Sprint (v (Name (flds ! i)))\<rparr>"
proof (induction flds arbitrary: i errs s)
  case Nil
  then show ?case by simp
next
  case (Cons f flds)
  obtain r s1 where r: "saveSetting (Tag_json f) (Sprint (v (Name f))) s = (r, s1)"
    by (cases "saveSetting (Tag_json f) (Sprint (v (Name f))) s")
  define errs1 where "errs1 = (case r of None \<Rightarrow> errs | Some e \<Rightarrow> errs @ [e])"
  have step: "save_fields (f # flds) v errs s = save_fields flds v errs1 s1"
    using r by (cases r) (simp_all add: errs1_def)
  from Cons.prems have d: "distinct (map Tag_json flds)" and nf: "Tag_json f \<notin> Tag_json ` set flds"
    by auto
  show ?case
  proof (cases i)
    case 0
    with Cons.prems r have "r = None" by simp
    with r have "find (\<lambda>r. Key r = Tag_json f) (settings s1) = Some \<lparr>Key = Tag_json f, Value = Sprint (v (Name f))\<rparr>"
      using saveSetting_ok(1) by blast
    with save_fields_settings_other [OF nf, of v errs1 s1] 0 show ?thesis
      unfolding step by simp
  next
    case (Suc j)
    with Cons.prems r have "j < length flds" "save_results flds v s1 ! j = None" by simp_all
    from Cons.IH [OF d this, of errs1] Suc show ?thesis unfolding step by simp
  qed
qed

subsection \<open>Evaluation on concrete stores\<close>

lemmas store_eval = saveSetting_def getSetting_def db_First_def db_Create_def db_Save_def
  db_Find_def next_fault_def IsNotFound_def uploadToFirestore_def uploadAllSettingsToFirestore_def
  UpdateAllSetting_def Combine_def Let_def

lemma saveSetting_no_fault:
  assumes "set (take 2 (faults s)) \<subseteq> {None}"
  shows "\<exists>s'. saveSetting key value s = (None, s')"
proof -
  consider "faults s = []" | "faults s = [None]" | fs where "faults s = None # None # fs"
    using assms by (cases "faults s"; cases "tl (faults s)") auto
  then show ?thesis
    by cases (auto simp: store_eval split: option.splits)
qed



subsection \<open>setSetting and the loops of GetAllSetting\<close>

lemma find_distinct_map:
  "distinct (map h xs) \<Longrightarrow> x \<in> set xs \<Longrightarrow> find (\<lambda>y. h y = h x) xs = Some x"
  by (induction xs) (auto simp: image_iff)

lemma find_Some_set: "find P xs = Some x \<Longrightarrow> x \<in> set xs \<and> P x"
  by (induction xs) (auto split: if_splits)

lemma type_of_zero: "type_of (zero t) t"
  by (cases t) simp_all

lemma typed_new: "distinct (map Name flds) \<Longrightarrow> typed flds (new_AllSetting flds)"
  by (auto simp: typed_def new_AllSetting_def find_distinct_map type_of_zero)

lemma setSetting_None:
  "find (\<lambda>f. Tag_json f = key) flds = None \<Longrightarrow> setSetting flds v key value = Inr v"
  by (simp add: setSetting_def)

lemma setSetting_Some:
  assumes "find (\<lambda>f. Tag_json f = key) flds = Some f" and "typed flds v"
  shows "(\<forall>y. decode (Type f) value = Some y \<longrightarrow> setSetting flds v key value = Inr (v(Name f := y))) \<and>
         (decode (Type f) value = None \<longrightarrow>
            (\<exists>k. Type f = TInt \<and> setSetting flds v key value = Inl (NumError ''ParseInt'' value k)) \<or>
            (\<exists>t. setSetting flds v key value = Inl (NewError (''unknown field '' @ key @ '' type '' @ t))))"
proof -
  from assms have t: "type_of (v (Name f)) (Type f)"
    using find_Some_set [of "\<lambda>f. Tag_json f = key" flds f] by (auto simp: typed_def)
  show ?thesis
  proof (cases "v (Name f)")
    case (VInt n)
    with t have "Type f = TInt" by simp
    with VInt assms(1) show ?thesis
      by (auto simp: setSetting_def ParseInt_def split: sum.splits)
  next
    case (VStr x)
    with t have "Type f = TString" by simp
    with VStr assms(1) show ?thesis by (simp add: setSetting_def)
  next
    case (VOther x)
    with t obtain z where "Type f = TOther z" by auto
    with VOther assms(1) show ?thesis by (simp add: setSetting_def)
  qed
qed

lemma setSetting_typed:
  assumes "typed flds v" and "setSetting flds v key value = Inr v'"
  shows "typed flds v'"
proof (cases "find (\<lambda>f. Tag_json f = key) flds")
  case None
  with assms show ?thesis by (simp add: setSetting_def)
next
  case (Some f)
  from assms(2) Some have c: "(\<exists>n m. v (Name f) = VInt m \<and> v' = v(Name f := VInt n)) \<or>
      (\<exists>x. v (Name f) = VStr x \<and> v' = v(Name f := VStr value))"
    by (auto simp: setSetting_def split: fvalue.splits sum.splits)
  show ?thesis
    unfolding typed_def
  proof
    fix g assume g: "g \<in> set flds"
    with assms(1) have t: "type_of (v (Name g)) (Type g)" by (simp add: typed_def)
    show "type_of (v' (Name g)) (Type g)"
    proof (cases "Name g = Name f")
      case True
      from c show ?thesis
      proof
        assume "\<exists>n m. v (Name f) = VInt m \<and> v' = v(Name f := VInt n)"
        then obtain n m where "v (Name f) = VInt m" "v' = v(Name f := VInt n)" by blast
        with t True show ?thesis by simp
      next
        assume "\<exists>x. v (Name f) = VStr x \<and> v' = v(Name f := VStr value)"
        then obtain x where "v (Name f) = VStr x" "v' = v(Name f := VStr value)" by blast
        with t True show ?thesis by simp
      qed
    next
      case False
      with c t show ?thesis by auto
    qed
  qed
qed

lemma setSetting_frame:
  assumes "setSetting flds v key value = Inr v'"
      and "\<And>f. find (\<lambda>f. Tag_json f = key) flds = Some f \<Longrightarrow> Name f \<noteq> n"
  shows "v' n = v n"
  using assms
  by (auto simp: setSetting_def split: option.splits fvalue.splits sum.splits)

lemma setSetting_error:
  "setSetting flds v key value = Inl e \<Longrightarrow>
     (\<exists>k. e = NumError ''ParseInt'' value k) \<or>
     (\<exists>t. e = NewError (''unknown field '' @ key @ '' type '' @ t))"
  by (auto simp: setSetting_def ParseInt_def split: option.splits fvalue.splits sum.splits)

lemma apply_rows_typed:
  "typed flds v \<Longrightarrow> apply_rows flds v km rows = Inr (v', km') \<Longrightarrow> typed flds v' \<and> km' = km \<union> Key ` set rows"
proof (induction rows arbitrary: v km)
  case Nil
  then show ?case by simp
next
  case (Cons r rows)
  from Cons.prems(2) obtain v1 where s: "setSetting flds v (Key r) (Value r) = Inr v1"
    and a: "apply_rows flds v1 (insert (Key r) km) rows = Inr (v', km')"
    by (auto split: sum.splits)
  from setSetting_typed [OF Cons.prems(1) s] have "typed flds v1" .
  from Cons.IH [OF this a] show ?case by auto
qed

lemma apply_rows_frame:
  "apply_rows flds v km rows = Inr (v', km') \<Longrightarrow>
   (\<And>r f. r \<in> set rows \<Longrightarrow> find (\<lambda>f. Tag_json f = Key r) flds = Some f \<Longrightarrow> Name f \<noteq> n) \<Longrightarrow>
   v' n = v n"
proof (induction rows arbitrary: v km)
  case Nil
  then show ?case by simp
next
  case (Cons r rows)
  from Cons.prems(1) obtain v1 where s: "setSetting flds v (Key r) (Value r) = Inr v1"
    and a: "apply_rows flds v1 (insert (Key r) km) rows = Inr (v', km')"
    by (auto split: sum.splits)
  have "v1 n = v n" using s Cons.prems(2) by (auto intro: setSetting_frame)
  moreover have "v' n = v1 n" using a Cons.prems(2) by (auto intro: Cons.IH)
  ultimately show ?case by simp
qed

lemma apply_rows_error:
  "apply_rows flds v km rows = Inl e \<Longrightarrow> read_error rows e"
proof (induction rows arbitrary: v km)
  case Nil
  then show ?case by simp
next
  case (Cons r rows)
  show ?case
  proof (cases "setSetting flds v (Key r) (Value r)")
    case (Inl e')
    with Cons.prems have "e' = e" by simp
    with setSetting_error [OF Inl] show ?thesis by (auto simp: read_error_def)
  next
    case (Inr v1)
    with Cons.prems have "apply_rows flds v1 (insert (Key r) km) rows = Inl e" by simp
    from Cons.IH [OF this] show ?thesis by (auto simp: read_error_def)
  qed
qed

lemma apply_rows_fails:
  "typed flds v \<Longrightarrow> row \<in> set rows \<Longrightarrow> find (\<lambda>f. Tag_json f = Key row) flds = Some f \<Longrightarrow>
   decode (Type f) (Value row) = None \<Longrightarrow> \<exists>e. apply_rows flds v km rows = Inl e"
proof (induction rows arbitrary: v km)
  case Nil
  then show ?case by simp
next
  case (Cons r rows)
  show ?case
  proof (cases "setSetting flds v (Key r) (Value r)")
    case (Inl e')
    then show ?thesis by simp
  next
    case (Inr v1)
    have "r \<noteq> row"
    proof
      assume "r = row"
      with setSetting_Some [OF Cons.prems(3) Cons.prems(1), of "Value row"] Cons.prems(4) Inr
      show False by auto
    qed
    with Cons.prems(2) have "row \<in> set rows" by simp
    from Cons.IH [OF setSetting_typed [OF Cons.prems(1) Inr] this Cons.prems(3,4)] Inr
    show ?thesis by simp
  qed
qed

lemma inj_Name:
  "distinct (map Name flds) \<Longrightarrow> f \<in> set flds \<Longrightarrow> g \<in> set flds \<Longrightarrow> Name f = Name g \<Longrightarrow> f = g"
  by (meson distinct_map inj_onD)

lemma apply_rows_value:
  assumes "distinct (map Name flds)"
  shows "distinct (map Key rows) \<Longrightarrow> typed flds v \<Longrightarrow> apply_rows flds v km rows = Inr (v', km') \<Longrightarrow>
     row \<in> set rows \<Longrightarrow> find (\<lambda>f. Tag_json f = Key row) flds = Some f \<Longrightarrow>
     decode (Type f) (Value row) = Some (v' (Name f))"
proof (induction rows arbitrary: v km)
  case Nil
  then show ?case by simp
next
  case (Cons r rows)
  from Cons.prems(3) obtain v1 where s: "setSetting flds v (Key r) (Value r) = Inr v1"
    and a: "apply_rows flds v1 (insert (Key r) km) rows = Inr (v', km')"
    by (auto split: sum.splits)
  have t1: "typed flds v1" by (rule setSetting_typed [OF Cons.prems(2) s])
  from Cons.prems(1) have d: "distinct (map Key rows)" and nk: "Key r \<notin> Key ` set rows" by auto
  show ?case
  proof (cases "r = row")
    case True
    from setSetting_Some [OF Cons.prems(5) Cons.prems(2), of "Value row"] s True
    obtain y where y: "decode (Type f) (Value row) = Some y" "v1 = v(Name f := y)"
      by (cases "decode (Type f) (Value row)") auto
    have "v' (Name f) = v1 (Name f)"
    proof (rule apply_rows_frame [OF a])
      fix r' g assume r': "r' \<in> set rows" and g: "find (\<lambda>f. Tag_json f = Key r') flds = Some g"
      from r' nk True have "Key r' \<noteq> Key row" by (metis image_eqI)
      with find_Some_set [OF g] find_Some_set [OF Cons.prems(5)] have "g \<noteq> f" by auto
      with inj_Name [OF assms] find_Some_set [OF g] find_Some_set [OF Cons.prems(5)]
      show "Name g \<noteq> Name f" by blast
    qed
    with y show ?thesis by simp
  next
    case False
    with Cons.prems(4) have "row \<in> set rows" by simp
    from Cons.IH [OF d t1 a this Cons.prems(5)] show ?thesis .
  qed
qed

lemma apply_rows_succeeds:
  "typed flds v \<Longrightarrow>
   (\<And>r f. r \<in> set rows \<Longrightarrow> find (\<lambda>f. Tag_json f = Key r) flds = Some f \<Longrightarrow> decode (Type f) (Value r) \<noteq> None) \<Longrightarrow>
   \<exists>v'. apply_rows flds v km rows = Inr (v', km \<union> Key ` set rows)"
proof (induction rows arbitrary: v km)
  case Nil
  then show ?case by simp
next
  case (Cons r rows)
  have "\<exists>v1. setSetting flds v (Key r) (Value r) = Inr v1"
  proof (cases "find (\<lambda>f. Tag_json f = Key r) flds")
    case None
    then show ?thesis by (simp add: setSetting_None)
  next
    case (Some f)
    with Cons.prems(2) [of r f] obtain y where "decode (Type f) (Value r) = Some y" by auto
    with setSetting_Some [OF Some Cons.prems(1), of "Value r"] show ?thesis by auto
  qed
  then obtain v1 where s: "setSetting flds v (Key r) (Value r) = Inr v1" ..
  from Cons.IH [OF setSetting_typed [OF Cons.prems(1) s], of "insert (Key r) km"] Cons.prems(2)
  obtain v' where "apply_rows flds v1 (insert (Key r) km) rows = Inr (v', insert (Key r) km \<union> Key ` set rows)"
    by auto
  with s show ?case by auto
qed

lemma apply_defaults_frame:
  "apply_defaults flds v km dvm = Inr v' \<Longrightarrow>
   (\<And>k d f. (k, d) \<in> set dvm \<Longrightarrow> k \<notin> km \<Longrightarrow> find (\<lambda>f. Tag_json f = k) flds = Some f \<Longrightarrow> Name f \<noteq> n) \<Longrightarrow>
   v' n = v n"
proof (induction dvm arbitrary: v)
  case Nil
  then show ?case by simp
next
  case (Cons kd dvm)
  obtain k d where kd: "kd = (k, d)" by (cases kd)
  show ?case
  proof (cases "k \<in> km")
    case True
    with Cons.prems(1) kd have a: "apply_defaults flds v km dvm = Inr v'" by simp
    show ?thesis using a Cons.prems(2) by (auto intro: Cons.IH)
  next
    case False
    with Cons.prems(1) kd obtain v1 where s: "setSetting flds v k d = Inr v1"
      and a: "apply_defaults flds v1 km dvm = Inr v'" by (auto split: sum.splits)
    have "v1 n = v n" using s Cons.prems(2) [of k d] False kd by (auto intro: setSetting_frame)
    moreover have "v' n = v1 n" using a Cons.prems(2) by (auto intro: Cons.IH)
    ultimately show ?thesis by simp
  qed
qed

lemma apply_defaults_value:
  assumes "distinct (map Name flds)"
  shows "distinct (map fst dvm) \<Longrightarrow> typed flds v \<Longrightarrow> apply_defaults flds v km dvm = Inr v' \<Longrightarrow>
     (key, d) \<in> set dvm \<Longrightarrow> key \<notin> km \<Longrightarrow> find (\<lambda>f. Tag_json f = key) flds = Some f \<Longrightarrow>
     decode (Type f) d = Some (v' (Name f))"
proof (induction dvm arbitrary: v)
  case Nil
  then show ?case by simp
next
  case (Cons kd dvm)
  obtain k0 d0 where kd: "kd = (k0, d0)" by (cases kd)
  from Cons.prems(1) kd have dd: "distinct (map fst dvm)" and nk: "k0 \<notin> fst ` set dvm" by auto
  show ?case
  proof (cases "(k0, d0) = (key, d)")
    case True
    with Cons.prems(3,5) kd obtain v1 where s: "setSetting flds v key d = Inr v1"
      and a: "apply_defaults flds v1 km dvm = Inr v'" by (auto split: sum.splits)
    from setSetting_Some [OF Cons.prems(6) Cons.prems(2), of d] s
    obtain y where y: "decode (Type f) d = Some y" "v1 = v(Name f := y)"
      by (cases "decode (Type f) d") auto
    have "v' (Name f) = v1 (Name f)"
    proof (rule apply_defaults_frame [OF a])
      fix k' d' g assume r': "(k', d') \<in> set dvm" and g: "find (\<lambda>f. Tag_json f = k') flds = Some g"
      from r' nk True have "k' \<noteq> key" by force
      with find_Some_set [OF g] find_Some_set [OF Cons.prems(6)] have "g \<noteq> f" by auto
      with inj_Name [OF assms] find_Some_set [OF g] find_Some_set [OF Cons.prems(6)]
      show "Name g \<noteq> Name f" by blast
    qed
    with y show ?thesis by simp
  next
    case False
    with Cons.prems(4) kd have m: "(key, d) \<in> set dvm" by auto
    have "\<exists>v1. typed flds v1 \<and> apply_defaults flds v1 km dvm = Inr v'"
    proof (cases "k0 \<in> km")
      case True
      with Cons.prems(2,3) kd show ?thesis by auto
    next
      case False
      with Cons.prems(3) kd obtain v1 where s: "setSetting flds v k0 d0 = Inr v1"
        and a: "apply_defaults flds v1 km dvm = Inr v'" by (auto split: sum.splits)
      with setSetting_typed [OF Cons.prems(2) s] show ?thesis by auto
    qed
    then obtain v1 where "typed flds v1" "apply_defaults flds v1 km dvm = Inr v'" by blast
    from Cons.IH [OF dd this m Cons.prems(5,6)] show ?thesis .
  qed
qed

lemma apply_defaults_succeeds:
  "typed flds v \<Longrightarrow>
   (\<And>k d f. (k, d) \<in> set dvm \<Longrightarrow> k \<notin> km \<Longrightarrow> find (\<lambda>f. Tag_json f = k) flds = Some f \<Longrightarrow> decode (Type f) d \<noteq> None) \<Longrightarrow>
   \<exists>v'. apply_defaults flds v km dvm = Inr v'"
proof (induction dvm arbitrary: v)
  case Nil
  then show ?case by simp
next
  case (Cons kd dvm)
  obtain k d where kd: "kd = (k, d)" by (cases kd)
  show ?case
  proof (cases "k \<in> km")
    case True
    have "\<exists>v'. apply_defaults flds v km dvm = Inr v'"
    proof (rule Cons.IH [OF Cons.prems(1)])
      fix k d f assume "(k, d) \<in> set dvm" "k \<notin> km" "find (\<lambda>f. Tag_json f = k) flds = Some f"
      then show "decode (Type f) d \<noteq> None" using Cons.prems(2) [of k d f] by simp
    qed
    with True kd show ?thesis by simp
  next
    case False
    have "\<exists>v1. setSetting flds v k d = Inr v1"
    proof (cases "find (\<lambda>f. Tag_json f = k) flds")
      case None
      then show ?thesis by (simp add: setSetting_None)
    next
      case (Some f)
      with Cons.prems(2) [of k d f] False kd obtain y where "decode (Type f) d = Some y" by auto
      with setSetting_Some [OF Some Cons.prems(1), of d] show ?thesis by auto
    qed
    then obtain v1 where s: "setSetting flds v k d = Inr v1" ..
    have "\<exists>v'. apply_defaults flds v1 km dvm = Inr v'"
    proof (rule Cons.IH [OF setSetting_typed [OF Cons.prems(1) s]])
      fix k d f assume "(k, d) \<in> set dvm" "k \<notin> km" "find (\<lambda>f. Tag_json f = k) flds = Some f"
      then show "decode (Type f) d \<noteq> None" using Cons.prems(2) [of k d f] by simp
    qed
    with s False kd show ?thesis by simp
  qed
qed

lemma apply_defaults_noop:
  "(\<And>k d. (k, d) \<in> set dvm \<Longrightarrow> k \<in> km \<or> find (\<lambda>f. Tag_json f = k) flds = None) \<Longrightarrow>
   apply_defaults flds v km dvm = Inr v"
proof (induction dvm)
  case Nil
  show ?case by simp
next
  case (Cons kd dvm)
  obtain k d where kd: "kd = (k, d)" by (cases kd)
  from Cons.prems [of k d] kd have "k \<in> km \<or> find (\<lambda>f. Tag_json f = k) flds = None" by simp
  moreover have "apply_defaults flds v km dvm = Inr v"
  proof (rule Cons.IH)
    fix k d assume "(k, d) \<in> set dvm"
    then show "k \<in> km \<or> find (\<lambda>f. Tag_json f = k) flds = None" using Cons.prems [of k d] by simp
  qed
  ultimately show ?case using kd by (auto simp: setSetting_None)
qed

subsection \<open>GetAllSetting\<close>

lemma db_Find_ok:
  "fst (next_fault s) = None \<Longrightarrow>
   \<exists>s1. db_Find s = (Inr (settings s), s1) \<and> settings s1 = settings s"
  using next_fault_None [of s] by (auto simp: db_Find_def)

lemma db_Find_cases:
  "(\<exists>msg s1. fst (next_fault s) = Some msg \<and> db_Find s = (Inl (StorageError msg), s1) \<and> settings s1 = settings s) \<or>
   (\<exists>s1. fst (next_fault s) = None \<and> db_Find s = (Inr (settings s), s1) \<and> settings s1 = settings s)"
proof -
  obtain f t where n: "next_fault s = (f, t)" by (cases "next_fault s")
  from next_fault_cases [OF n] n show ?thesis
    by (cases f) (auto simp: db_Find_def)
qed

lemma setSetting_int_error:
  assumes "find (\<lambda>f. Tag_json f = key) flds = Some f" and "typed flds v" and "Type f = TInt"
  shows "setSetting flds v key value =
           (case ParseInt value 32 of Inl err \<Rightarrow> Inl err | Inr n \<Rightarrow> Inr (v(Name f := VInt n)))"
proof -
  from assms have "type_of (v (Name f)) TInt"
    using find_Some_set [of "\<lambda>f. Tag_json f = key" flds f] by (auto simp: typed_def)
  then obtain m where "v (Name f) = VInt m" by (cases "v (Name f)") auto
  with assms(1) show ?thesis by (simp add: setSetting_def)
qed

lemma apply_rows_only_bad:
  "typed flds v \<Longrightarrow> row \<in> set rows \<Longrightarrow> find (\<lambda>f. Tag_json f = Key row) flds = Some f \<Longrightarrow>
   Type f = TInt \<Longrightarrow> ParseInt (Value row) 32 = Inl err \<Longrightarrow>
   (\<And>r g. r \<in> set rows \<Longrightarrow> r \<noteq> row \<Longrightarrow> find (\<lambda>f. Tag_json f = Key r) flds = Some g \<Longrightarrow>
       decode (Type g) (Value r) \<noteq> None) \<Longrightarrow>
   apply_rows flds v km rows = Inl err"
proof (induction rows arbitrary: v km)
  case Nil
  then show ?case by simp
next
  case (Cons r rows)
  show ?case
  proof (cases "r = row")
    case True
    with setSetting_int_error [OF Cons.prems(3) Cons.prems(1) Cons.prems(4), of "Value row"] Cons.prems(5)
    show ?thesis by simp
  next
    case False
    with Cons.prems(2) have m: "row \<in> set rows" by simp
    have "\<exists>v1. setSetting flds v (Key r) (Value r) = Inr v1"
    proof (cases "find (\<lambda>f. Tag_json f = Key r) flds")
      case None
      then show ?thesis by (simp add: setSetting_None)
    next
      case (Some g)
      with Cons.prems(6) [of r g] False obtain y where "decode (Type g) (Value r) = Some y" by auto
      with setSetting_Some [OF Some Cons.prems(1), of "Value r"] show ?thesis by auto
    qed
    then obtain v1 where s: "setSetting flds v (Key r) (Value r) = Inr v1" ..
    have "apply_rows flds v1 (insert (Key r) km) rows = Inl err"
    proof (rule Cons.IH [OF setSetting_typed [OF Cons.prems(1) s] m Cons.prems(3,4,5)])
      fix r' g assume "r' \<in> set rows" "r' \<noteq> row" "find (\<lambda>f. Tag_json f = Key r') flds = Some g"
      then show "decode (Type g) (Value r') \<noteq> None" using Cons.prems(6) [of r' g] by simp
    qed
    with s show ?thesis by simp
  qed
qed

lemma GetAllSetting_bad_int_row:
  assumes "distinct (map Name flds)"
      and "row \<in> set (settings s)" and "find (\<lambda>f. Tag_json f = Key row) flds = Some field"
      and "Type field = TInt" and "ParseInt (Value row) 32 = Inl err"
  shows "setSetting flds (new_AllSetting flds) (Key row) (Value row) = Inl err \<and>
         (\<exists>e s'. GetAllSetting flds dvm s = (Inl e, s') \<and> settings s' = settings s \<and>
            (fst (next_fault s) = None \<longrightarrow> read_error (settings s) e) \<and>
            (fst (next_fault s) = None \<and>
             (\<forall>r \<in> set (settings s). r \<noteq> row \<longrightarrow>
                (\<forall>g. find (\<lambda>f. Tag_json f = Key r) flds = Some g \<longrightarrow> decode (Type g) (Value r) \<noteq> None))
             \<longrightarrow> e = err))"
proof -
  note t = typed_new [OF assms(1)]
  have 1: "setSetting flds (new_AllSetting flds) (Key row) (Value row) = Inl err"
    using setSetting_int_error [OF assms(3) t assms(4), of "Value row"] assms(5) by simp
  have d: "decode (Type field) (Value row) = None" using assms(4,5) by simp
  from apply_rows_fails [OF t assms(2,3) d, of "{}"]
  obtain e where e: "apply_rows flds (new_AllSetting flds) {} (settings s) = Inl e" by blast
  from db_Find_cases [of s]
  have "\<exists>e s'. GetAllSetting flds dvm s = (Inl e, s') \<and> settings s' = settings s \<and>
            (fst (next_fault s) = None \<longrightarrow> read_error (settings s) e) \<and>
            (fst (next_fault s) = None \<and>
             (\<forall>r \<in> set (settings s). r \<noteq> row \<longrightarrow>
                (\<forall>g. find (\<lambda>f. Tag_json f = Key r) flds = Some g \<longrightarrow> decode (Type g) (Value r) \<noteq> None))
             \<longrightarrow> e = err)"
  proof
    assume "\<exists>msg s1. fst (next_fault s) = Some msg \<and> db_Find s = (Inl (StorageError msg), s1) \<and> settings s1 = settings s"
    then show ?thesis by (auto simp: GetAllSetting_def)
  next
    assume "\<exists>s1. fst (next_fault s) = None \<and> db_Find s = (Inr (settings s), s1) \<and> settings s1 = settings s"
    then obtain s1 where f: "db_Find s = (Inr (settings s), s1)" "settings s1 = settings s" by blast
    have g: "GetAllSetting flds dvm s = (Inl e, s1)" by (simp add: GetAllSetting_def f e)
    have "(\<forall>r \<in> set (settings s). r \<noteq> row \<longrightarrow>
                (\<forall>g. find (\<lambda>f. Tag_json f = Key r) flds = Some g \<longrightarrow> decode (Type g) (Value r) \<noteq> None))
          \<longrightarrow> e = err"
    proof
      assume a: "\<forall>r \<in> set (settings s). r \<noteq> row \<longrightarrow>
                (\<forall>g. find (\<lambda>f. Tag_json f = Key r) flds = Some g \<longrightarrow> decode (Type g) (Value r) \<noteq> None)"
      have "apply_rows flds (new_AllSetting flds) {} (settings s) = Inl err"
        by (rule apply_rows_only_bad [OF t assms(2,3,4,5)]) (use a in blast)
      with e show "e = err" by simp
    qed
    with g f(2) apply_rows_error [OF e] show ?thesis by blast
  qed
  with 1 show ?thesis by blast
qed

lemma GetAllSetting_Inr:
  assumes "GetAllSetting flds dvm s = (Inr v, s')"
  shows "\<exists>v1. apply_rows flds (new_AllSetting flds) {} (settings s) = Inr (v1, Key ` set (settings s)) \<and>
           apply_defaults flds v1 (Key ` set (settings s)) dvm = Inr v \<and>
           (distinct (map Name flds) \<longrightarrow> typed flds v1)"
proof -
  from db_Find_cases [of s] assms obtain s1 where f: "db_Find s = (Inr (settings s), s1)"
    by (auto simp: GetAllSetting_def)
  from assms f obtain v1 km where a: "apply_rows flds (new_AllSetting flds) {} (settings s) = Inr (v1, km)"
    and b: "apply_defaults flds v1 km dvm = Inr v"
    by (auto simp: GetAllSetting_def split: sum.splits)
  have "distinct (map Name flds) \<longrightarrow> typed flds v1 \<and> km = Key ` set (settings s)"
    using apply_rows_typed [OF typed_new a] by auto
  moreover have "km = Key ` set (settings s)"
  proof -
    have "\<And>v km rows v' km'. apply_rows flds v km rows = Inr (v', km') \<Longrightarrow> km' = km \<union> Key ` set rows"
    proof -
      fix v km rows v' km'
      show "apply_rows flds v km rows = Inr (v', km') \<Longrightarrow> km' = km \<union> Key ` set rows"
        by (induction rows arbitrary: v km) (auto split: sum.splits)
    qed
    from this [OF a] show ?thesis by simp
  qed
  ultimately show ?thesis using a b by auto
qed

subsection \<open>Printing and parsing a field\<close>

lemma decode_Sprint:
  assumes "type_of x t" and "t = TInt \<or> t = TString"
      and "\<forall>n. x = VInt n \<longrightarrow> - (2 ^ 31) \<le> n \<and> n < 2 ^ 31"
  shows "decode t (Sprint x) = Some x"
  using assms by (cases x) (auto simp: ParseInt_Itoa)

lemmas read_eval = GetAllSetting_def setSetting_def new_AllSetting_def db_Find_def next_fault_def
  ParseInt_def ParseInt_kind_def ParseUint_def is_digit_def digit_val_def Let_def

lemmas decimal_eval = valid_decimal_def decimal_value_def digits_value_def all_digits_def
  is_digit_def digit_val_def

lemma roundtrip_bounded:
  assumes "distinct (map Name flds)" and "distinct (map Tag_json flds)"
      and "\<forall>f \<in> set flds. Type f = TInt \<or> Type f = TString"
      and "typed flds allSetting"
      and "\<forall>f \<in> set flds. \<forall>n. allSetting (Name f) = VInt n \<longrightarrow> - (2 ^ 31) \<le> n \<and> n < 2 ^ 31"
      and "distinct (map Key (settings s))"
      and "UpdateAllSetting CheckValid flds allSetting s = (None, s1)"
      and "fst (next_fault s1) = None"
  shows "\<exists>v s2. GetAllSetting flds dvm s1 = (Inr v, s2) \<and>
           (\<forall>f \<in> set flds. v (Name f) = allSetting (Name f))"
proof -
  obtain errs t where sf: "save_fields flds allSetting [] s = (errs, t)"
    by (cases "save_fields flds allSetting [] s")
  from assms(7) sf have cv: "CheckValid allSetting = None" and e: "errs = []"
    and s1: "s1 = uploadAllSettingsToFirestore flds allSetting t"
    by (auto simp: UpdateAllSetting_def Combine_def split: option.splits if_splits)
  have st: "settings s1 = settings t" by (simp add: s1 uploadAllSettingsToFirestore_def)
  let ?rows = "settings s1"
  have "List.map_filter id (save_results flds allSetting s) = []"
    using save_fields_errs [of flds allSetting "[]" s] sf e by simp
  then have ok: "\<forall>r \<in> set (save_results flds allSetting s). r = None"
    by (simp only: map_filter_id_Nil)
  have dk: "distinct (map Key ?rows)"
    using save_fields_distinct [OF assms(6), of flds allSetting "[]"] sf by (simp add: st)
  have row: "find (\<lambda>r. Key r = Tag_json f) ?rows = Some \<lparr>Key = Tag_json f, Value = Sprint (allSetting (Name f))\<rparr>"
    if "f \<in> set flds" for f
  proof -
    from that obtain i where i: "i < length flds" "flds ! i = f" by (auto simp: in_set_conv_nth)
    with ok have "save_results flds allSetting s ! i = None" by (simp add: length_save_results)
    from save_fields_commit [OF assms(2) i(1) this, of "[]"] sf i(2) show ?thesis by (simp add: st)
  qed
  have tagf: "find (\<lambda>g. Tag_json g = Tag_json f) flds = Some f" if "f \<in> set flds" for f
    using find_distinct_map [OF assms(2) that] .
  have val: "Value r = Sprint (allSetting (Name f))"
    if r: "r \<in> set ?rows" and f: "find (\<lambda>g. Tag_json g = Key r) flds = Some f" for r f
  proof -
    from find_Some_set [OF f] have fs: "f \<in> set flds" and k: "Tag_json f = Key r" by auto
    from find_distinct_map [OF dk r] have "find (\<lambda>y. Key y = Key r) ?rows = Some r" .
    with row [OF fs] k have "r = \<lparr>Key = Tag_json f, Value = Sprint (allSetting (Name f))\<rparr>" by simp
    then have "Value r = Value \<lparr>Key = Tag_json f, Value = Sprint (allSetting (Name f))\<rparr>" by (rule arg_cong)
    then show ?thesis by simp
  qed
  have dec: "decode (Type f) (Sprint (allSetting (Name f))) = Some (allSetting (Name f))"
    if "f \<in> set flds" for f
    using that assms(3,4,5) by (intro decode_Sprint) (auto simp: typed_def)
  note tn = typed_new [OF assms(1)]
  from db_Find_ok [OF assms(8)] obtain s2 where fd: "db_Find s1 = (Inr ?rows, s2)" by blast
  have "\<exists>v'. apply_rows flds (new_AllSetting flds) {} ?rows = Inr (v', {} \<union> Key ` set ?rows)"
  proof (rule apply_rows_succeeds [OF tn])
    fix r f assume r: "r \<in> set ?rows" and f: "find (\<lambda>f. Tag_json f = Key r) flds = Some f"
    from val [OF r f] dec [of f] find_Some_set [OF f]
    show "decode (Type f) (Value r) \<noteq> None" by simp
  qed
  then obtain v where ar: "apply_rows flds (new_AllSetting flds) {} ?rows = Inr (v, Key ` set ?rows)"
    by auto
  have ad: "apply_defaults flds v (Key ` set ?rows) dvm = Inr v"
  proof (rule apply_defaults_noop)
    fix k d assume "(k, d) \<in> set dvm"
    show "k \<in> Key ` set ?rows \<or> find (\<lambda>f. Tag_json f = k) flds = None"
    proof (cases "find (\<lambda>f. Tag_json f = k) flds")
      case None
      then show ?thesis by simp
    next
      case (Some f)
      from find_Some_set [OF Some] have fs: "f \<in> set flds" and k: "Tag_json f = k" by auto
      from find_Some_set [OF row [OF fs]]
      have "\<lparr>Key = Tag_json f, Value = Sprint (allSetting (Name f))\<rparr> \<in> set ?rows" by simp
      then have "Key \<lparr>Key = Tag_json f, Value = Sprint (allSetting (Name f))\<rparr> \<in> Key ` set ?rows"
        by (rule imageI)
      with k show ?thesis by simp
    qed
  qed
  have g: "GetAllSetting flds dvm s1 = (Inr v, s2)"
    by (simp add: GetAllSetting_def fd ar ad)
  have "v (Name f) = allSetting (Name f)" if fs: "f \<in> set flds" for f
  proof -
    let ?r = "\<lparr>Key = Tag_json f, Value = Sprint (allSetting (Name f))\<rparr>"
    from find_Some_set [OF row [OF fs]] have m: "?r \<in> set ?rows" by simp
    have ff: "find (\<lambda>g. Tag_json g = Key ?r) flds = Some f" using tagf [OF fs] by simp
    from apply_rows_value [OF assms(1) dk tn ar m ff] dec [OF fs] show ?thesis by simp
  qed
  with g show ?thesis by blast
qed

section \<open>The properties\<close>

subsection \<open>C1: a written aggregate is read back\<close>

text \<open>
  C1. Let the fields have distinct names and distinct keys and be of type \<open>int\<close> or
  \<open>string\<close>, let the aggregate be well typed, let \<open>CheckValid\<close> accept only
  aggregates whose \<open>int\<close> fields fit 32 bits (as a check of the port range does), and
  let the table hold at most one row per key. If \<open>UpdateAllSetting\<close> returns no error
  and the fetch of the \<open>GetAllSetting\<close> that follows does not fail, then that
  \<open>GetAllSetting\<close> returns an aggregate whose fields equal the written ones, whether
  their rows existed before the write or not.
\<close>

theorem UpdateAllSetting_GetAllSetting_roundtrip:
  assumes "distinct (map Name flds)" and "distinct (map Tag_json flds)"
      and "\<forall>f \<in> set flds. Type f = TInt \<or> Type f = TString"
      and "typed flds allSetting"
      and "\<forall>a. CheckValid a = None \<longrightarrow>
             (\<forall>f \<in> set flds. Type f = TInt \<longrightarrow>
                (\<forall>n. a (Name f) = VInt n \<longrightarrow> - (2 ^ 31) \<le> n \<and> n < 2 ^ 31))"
      and "distinct (map Key (settings s))"
      and "UpdateAllSetting CheckValid flds allSetting s = (None, s1)"
      and "fst (next_fault s1) = None"
  shows "\<exists>v s2. GetAllSetting flds dvm s1 = (Inr v, s2) \<and>
           (\<forall>f \<in> set flds. v (Name f) = allSetting (Name f))"
proof -
  from assms(7) have cv: "CheckValid allSetting = None"
    by (auto simp: UpdateAllSetting_def split: option.splits)
  have b: "\<forall>f \<in> set flds. \<forall>n. allSetting (Name f) = VInt n \<longrightarrow> - (2 ^ 31) \<le> n \<and> n < 2 ^ 31"
  proof (intro ballI allI impI)
    fix f n assume f: "f \<in> set flds" and n: "allSetting (Name f) = VInt n"
    from assms(4) f n have "Type f = TInt" by (auto simp: typed_def)
    with assms(5) cv f n show "- (2 ^ 31) \<le> n \<and> n < 2 ^ 31" by blast
  qed
  from roundtrip_bounded [OF assms(1-4) b assms(6-8)] show ?thesis .
qed

theorem UpdateAllSetting_GetAllSetting_roundtrip_witness:
  "\<exists>s1 v s2.
     UpdateAllSetting port_check example_fields example_setting
       \<lparr>settings = [\<lparr>Key = ''webPort'', Value = ''54321''\<rparr>], faults = [], dispatched = []\<rparr> = (None, s1) \<and>
     GetAllSetting example_fields example_catalogue s1 = (Inr v, s2) \<and>
     v ''WebListen'' = VStr ''0.0.0.0'' \<and> v ''WebPort'' = VInt 8080"
proof -
  let ?s = "\<lparr>settings = [\<lparr>Key = ''webPort'', Value = ''54321''\<rparr>], faults = [], dispatched = []\<rparr>"
  obtain r s1 where u: "UpdateAllSetting port_check example_fields example_setting ?s = (r, s1)"
    by (cases "UpdateAllSetting port_check example_fields example_setting ?s")
  have "UpdateAllSetting port_check example_fields example_setting ?s =
     (None, \<lparr>settings = [\<lparr>Key = ''webPort'', Value = ''8080''\<rparr>, \<lparr>Key = ''webListen'', Value = ''0.0.0.0''\<rparr>],
             faults = [],
             dispatched = [SettingUpload ''webListen'' ''0.0.0.0'', SettingUpload ''webPort'' ''8080'',
                           BulkUpload [(''webListen'', VStr ''0.0.0.0''), (''webPort'', VInt 8080)]]\<rparr>)"
    by (simp add: store_eval example_fields_def example_setting_def port_check_def Itoa_8080)
  with u have r: "r = None" and f: "fst (next_fault s1) = None" by (auto simp: next_fault_def)
  have h: "distinct (map Name example_fields)" "distinct (map Tag_json example_fields)"
    "\<forall>f \<in> set example_fields. Type f = TInt \<or> Type f = TString" "typed example_fields example_setting"
    by (simp_all add: example_fields_def example_setting_def typed_def)
  have c: "\<forall>a. port_check a = None \<longrightarrow>
             (\<forall>f \<in> set example_fields. Type f = TInt \<longrightarrow>
                (\<forall>n. a (Name f) = VInt n \<longrightarrow> - (2 ^ 31) \<le> n \<and> n < 2 ^ 31))"
    by (auto simp: port_check_def example_fields_def split: if_splits)
  have d: "distinct (map Key (settings ?s))" by simp
  from UpdateAllSetting_GetAllSetting_roundtrip [OF h c d u [unfolded r] f, of example_catalogue]
  obtain v s2 where g: "GetAllSetting example_fields example_catalogue s1 = (Inr v, s2)"
    and a: "\<forall>f \<in> set example_fields. v (Name f) = example_setting (Name f)" by blast
  from a have "v ''WebListen'' = VStr ''0.0.0.0'' \<and> v ''WebPort'' = VInt 8080"
    by (simp add: example_fields_def example_setting_def)
  with u r g show ?thesis by blast
qed

subsection \<open>C2: defaults fill the fields that have no row\<close>

text \<open>
  C2. Let \<open>dvm\<close> be \<open>defaultValueMap\<close> in any iteration order. If the fetch does not
  fail, every stored row of a field can be applied, and every default whose key has no
  row fits the type of its field, then \<open>GetAllSetting\<close> returns an aggregate, and in
  it every field whose key is in the catalogue and has no stored row holds the value of
  its default: the text itself for a \<open>string\<close> field, the parsed number for an \<open>int\<close>
  field. In particular on an empty table every field with a default holds it. And
  whenever \<open>GetAllSetting\<close> returns an aggregate, the fields whose keys have no row hold
  their defaults.
\<close>

theorem GetAllSetting_defaults:
  assumes "distinct (map Name flds)"
      and "mset dvm = mset (defaultValueMap xrayTemplateConfig secret)"
  shows "(\<forall>v s' key d field.
            GetAllSetting flds dvm s = (Inr v, s') \<and> (key, d) \<in> set dvm \<and>
            key \<notin> Key ` set (settings s) \<and> find (\<lambda>f. Tag_json f = key) flds = Some field \<longrightarrow>
            decode (Type field) d = Some (v (Name field))) \<and>
         (fst (next_fault s) = None \<and>
          (\<forall>r \<in> set (settings s). \<forall>g. find (\<lambda>f. Tag_json f = Key r) flds = Some g \<longrightarrow>
             decode (Type g) (Value r) \<noteq> None) \<and>
          (\<forall>key d field. (key, d) \<in> set dvm \<and> key \<notin> Key ` set (settings s) \<and>
             find (\<lambda>f. Tag_json f = key) flds = Some field \<longrightarrow> decode (Type field) d \<noteq> None) \<longrightarrow>
          (\<exists>v s'. GetAllSetting flds dvm s = (Inr v, s') \<and>
             (\<forall>key d field. (key, d) \<in> set dvm \<and> key \<notin> Key ` set (settings s) \<and>
                find (\<lambda>f. Tag_json f = key) flds = Some field \<longrightarrow>
                decode (Type field) d = Some (v (Name field))))) \<and>
         (settings s = [] \<and> fst (next_fault s) = None \<and>
          (\<forall>key d field. (key, d) \<in> set dvm \<and> find (\<lambda>f. Tag_json f = key) flds = Some field \<longrightarrow>
             decode (Type field) d \<noteq> None) \<longrightarrow>
          (\<exists>v s'. GetAllSetting flds dvm s = (Inr v, s') \<and>
             (\<forall>key d field. (key, d) \<in> set dvm \<and> find (\<lambda>f. Tag_json f = key) flds = Some field \<longrightarrow>
                decode (Type field) d = Some (v (Name field)))))"
proof -
  have "mset (map fst dvm) = mset (map fst (defaultValueMap xrayTemplateConfig secret))"
    using assms(2) by (metis mset_map)
  moreover have "distinct (map fst (defaultValueMap xrayTemplateConfig secret))"
    by (simp add: defaultValueMap_def)
  ultimately have dd: "distinct (map fst dvm)" by (metis mset_eq_imp_distinct_iff)
  have A: "decode (Type field) d = Some (v (Name field))"
    if g: "GetAllSetting flds dvm s = (Inr v, s')" and m: "(key, d) \<in> set dvm"
      and nk: "key \<notin> Key ` set (settings s)" and f: "find (\<lambda>f. Tag_json f = key) flds = Some field"
    for v s' key d field
  proof -
    from GetAllSetting_Inr [OF g] assms(1) obtain v1 where
      "apply_defaults flds v1 (Key ` set (settings s)) dvm = Inr v" "typed flds v1" by blast
    from apply_defaults_value [OF assms(1) dd this(2,1) m nk f] show ?thesis .
  qed
  have B: "\<exists>v s'. GetAllSetting flds dvm s = (Inr v, s') \<and>
             (\<forall>key d field. (key, d) \<in> set dvm \<and> key \<notin> Key ` set (settings s) \<and>
                find (\<lambda>f. Tag_json f = key) flds = Some field \<longrightarrow>
                decode (Type field) d = Some (v (Name field)))"
    if nf: "fst (next_fault s) = None"
      and rows: "\<forall>r \<in> set (settings s). \<forall>g. find (\<lambda>f. Tag_json f = Key r) flds = Some g \<longrightarrow>
             decode (Type g) (Value r) \<noteq> None"
      and ok: "\<forall>key d field. (key, d) \<in> set dvm \<and> key \<notin> Key ` set (settings s) \<and>
             find (\<lambda>f. Tag_json f = key) flds = Some field \<longrightarrow> decode (Type field) d \<noteq> None"
  proof -
    from db_Find_ok [OF nf] obtain s1 where f: "db_Find s = (Inr (settings s), s1)" by auto
    note tn = typed_new [OF assms(1)]
    have "\<exists>v1. apply_rows flds (new_AllSetting flds) {} (settings s) = Inr (v1, {} \<union> Key ` set (settings s))"
      by (rule apply_rows_succeeds [OF tn]) (use rows in blast)
    then obtain v1 where ar: "apply_rows flds (new_AllSetting flds) {} (settings s) = Inr (v1, Key ` set (settings s))"
      by auto
    from apply_rows_typed [OF tn ar] have t1: "typed flds v1" by simp
    have "\<exists>v. apply_defaults flds v1 (Key ` set (settings s)) dvm = Inr v"
      by (rule apply_defaults_succeeds [OF t1]) (use ok in blast)
    then obtain v where v: "apply_defaults flds v1 (Key ` set (settings s)) dvm = Inr v" ..
    have g: "GetAllSetting flds dvm s = (Inr v, s1)" by (simp add: GetAllSetting_def f ar v)
    from A [OF g] have "\<forall>key d field. (key, d) \<in> set dvm \<and> key \<notin> Key ` set (settings s) \<and>
                find (\<lambda>f. Tag_json f = key) flds = Some field \<longrightarrow>
                decode (Type field) d = Some (v (Name field))" by auto
    with g show ?thesis by blast
  qed
  have C: "\<exists>v s'. GetAllSetting flds dvm s = (Inr v, s') \<and>
             (\<forall>key d field. (key, d) \<in> set dvm \<and> find (\<lambda>f. Tag_json f = key) flds = Some field \<longrightarrow>
                decode (Type field) d = Some (v (Name field)))"
    if e: "settings s = []" and nf: "fst (next_fault s) = None"
      and ok: "\<forall>key d field. (key, d) \<in> set dvm \<and> find (\<lambda>f. Tag_json f = key) flds = Some field \<longrightarrow>
             decode (Type field) d \<noteq> None"
    using B [OF nf] e ok by simp
  from A B C show ?thesis by blast
qed

theorem GetAllSetting_defaults_witness:
  "\<exists>v s'. GetAllSetting example_fields (rev example_catalogue)
            \<lparr>settings = [\<lparr>Key = ''webListen'', Value = ''::1''\<rparr>], faults = [], dispatched = []\<rparr> = (Inr v, s') \<and>
          v ''WebPort'' = VInt 54321 \<and> v ''WebListen'' = VStr ''::1''"
proof -
  let ?d = "rev example_catalogue"
  let ?s = "\<lparr>settings = [\<lparr>Key = ''webListen'', Value = ''::1''\<rparr>], faults = [], dispatched = []\<rparr>"
  have p: "decode TInt ''54321'' = Some (VInt 54321)"
    by (simp add: ParseInt_def ParseInt_kind_def ParseUint_def is_digit_def digit_val_def Let_def)
  have h: "distinct (map Name example_fields)" "mset ?d = mset (defaultValueMap ''{}'' ''Xk29'')"
    by (simp_all add: example_fields_def example_catalogue_def)
  have e: "fst (next_fault ?s) = None" by (simp add: next_fault_def)
  have rows: "\<forall>r \<in> set (settings ?s). \<forall>g. find (\<lambda>f. Tag_json f = Key r) example_fields = Some g \<longrightarrow>
             decode (Type g) (Value r) \<noteq> None"
    by (auto simp: example_fields_def)
  have ok: "\<forall>key d field. (key, d) \<in> set ?d \<and> key \<notin> Key ` set (settings ?s) \<and>
             find (\<lambda>f. Tag_json f = key) example_fields = Some field \<longrightarrow> decode (Type field) d \<noteq> None"
    using p by (auto simp: example_catalogue_def defaultValueMap_def example_fields_def)
  from GetAllSetting_defaults [OF h, of ?s, THEN conjunct2, THEN conjunct1] e rows ok
  obtain v s' where g: "GetAllSetting example_fields ?d ?s = (Inr v, s')"
    and a: "\<forall>key d field. (key, d) \<in> set ?d \<and> key \<notin> Key ` set (settings ?s) \<and>
                find (\<lambda>f. Tag_json f = key) example_fields = Some field \<longrightarrow>
                decode (Type field) d = Some (v (Name field))"
    by blast
  from a [rule_format, of "''webPort''" "''54321''" "\<lparr>Name = ''WebPort'', Tag_json = ''webPort'', Type = TInt\<rparr>"] p
  have 1: "v ''WebPort'' = VInt 54321" by (simp add: example_catalogue_def defaultValueMap_def example_fields_def)
  have "GetAllSetting example_fields ?d ?s = (Inr v, s') \<Longrightarrow> v ''WebListen'' = VStr ''::1''"
    by (auto simp: GetAllSetting_def db_Find_def next_fault_def setSetting_def new_AllSetting_def
        example_fields_def example_catalogue_def defaultValueMap_def
        ParseInt_def ParseInt_kind_def ParseUint_def is_digit_def digit_val_def Let_def)
  with g have 2: "v ''WebListen'' = VStr ''::1''" by simp
  from g 1 2 show ?thesis by blast
qed

subsection \<open>C3: an invalid aggregate is not written\<close>

text \<open>
  C3. If \<open>CheckValid\<close> returns an error for the aggregate, \<open>UpdateAllSetting\<close>
  returns that error and the store is the one it started from: no row is touched and no
  database call is made.
\<close>

theorem UpdateAllSetting_invalid:
  "CheckValid allSetting = Some err \<Longrightarrow>
   UpdateAllSetting CheckValid flds allSetting s = (Some err, s)"
  by (simp add: UpdateAllSetting_def)

theorem UpdateAllSetting_invalid_witness:
  "port_check (new_AllSetting example_fields) = Some (NewError ''web port is not a valid port'') \<and>
   UpdateAllSetting port_check example_fields (new_AllSetting example_fields)
     \<lparr>settings = [\<lparr>Key = ''webPort'', Value = ''54321''\<rparr>], faults = [], dispatched = []\<rparr> =
   (Some (NewError ''web port is not a valid port''),
    \<lparr>settings = [\<lparr>Key = ''webPort'', Value = ''54321''\<rparr>], faults = [], dispatched = []\<rparr>)"
proof -
  have c: "port_check (new_AllSetting example_fields) = Some (NewError ''web port is not a valid port'')"
    by (simp add: port_check_def new_AllSetting_def example_fields_def)
  from UpdateAllSetting_invalid [of port_check "new_AllSetting example_fields", OF c] c show ?thesis by simp
qed

subsection \<open>C4: a malformed integer row fails the read\<close>

text \<open>
  C4. If a stored row has the key of an \<open>int\<close> field and its value is not a base-10
  integer, applying that row fails with the \<open>ParseInt\<close> error for that value, and
  \<open>GetAllSetting\<close> returns an error and no aggregate, leaving the table as it was. When
  the fetch itself does not fail, the error is a parse error or an unknown-type error of
  a stored row, and it is the parse error of this row when every other row can be applied.
\<close>

theorem GetAllSetting_malformed_int:
  assumes "distinct (map Name flds)"
      and "row \<in> set (settings s)" and "find (\<lambda>f. Tag_json f = Key row) flds = Some field"
      and "Type field = TInt" and "\<not> valid_decimal (Value row)"
  shows "\<exists>k e s'.
           setSetting flds (new_AllSetting flds) (Key row) (Value row) =
             Inl (NumError ''ParseInt'' (Value row) k) \<and>
           GetAllSetting flds dvm s = (Inl e, s') \<and> settings s' = settings s \<and>
           (fst (next_fault s) = None \<longrightarrow> read_error (settings s) e) \<and>
           (fst (next_fault s) = None \<and>
            (\<forall>r \<in> set (settings s). r \<noteq> row \<longrightarrow>
               (\<forall>g. find (\<lambda>f. Tag_json f = Key r) flds = Some g \<longrightarrow> decode (Type g) (Value r) \<noteq> None))
            \<longrightarrow> e = NumError ''ParseInt'' (Value row) k)"
proof -
  from ParseInt_kind_invalid [OF assms(5), of 32] obtain k where "ParseInt_kind (Value row) 32 = Inl k"
    by auto
  then have p: "ParseInt (Value row) 32 = Inl (NumError ''ParseInt'' (Value row) k)"
    by (simp add: ParseInt_def)
  from GetAllSetting_bad_int_row [OF assms(1-4) p, of dvm] show ?thesis
    by (elim conjE exE, intro exI conjI) assumption+
qed

theorem GetAllSetting_malformed_int_witness:
  "\<exists>s'. GetAllSetting example_fields example_catalogue
          \<lparr>settings = [\<lparr>Key = ''webPort'', Value = ''80a''\<rparr>], faults = [], dispatched = []\<rparr> =
        (Inl (NumError ''ParseInt'' ''80a'' ErrSyntax), s')"
proof -
  let ?row = "\<lparr>Key = ''webPort'', Value = ''80a''\<rparr>"
  let ?s = "\<lparr>settings = [?row], faults = [], dispatched = []\<rparr>"
  let ?f = "\<lparr>Name = ''WebPort'', Tag_json = ''webPort'', Type = TInt\<rparr>"
  have h: "distinct (map Name example_fields)" "?row \<in> set (settings ?s)"
    "find (\<lambda>f. Tag_json f = Key ?row) example_fields = Some ?f" "Type ?f = TInt" "\<not> valid_decimal (Value ?row)"
    by (simp_all add: example_fields_def decimal_eval)
  from GetAllSetting_malformed_int [OF h, of example_catalogue]
  obtain k e s' where
    1: "setSetting example_fields (new_AllSetting example_fields) (Key ?row) (Value ?row) = Inl (NumError ''ParseInt'' (Value ?row) k)"
    and 2: "GetAllSetting example_fields example_catalogue ?s = (Inl e, s')"
    and 3: "fst (next_fault ?s) = None \<and>
            (\<forall>r \<in> set (settings ?s). r \<noteq> ?row \<longrightarrow>
               (\<forall>g. find (\<lambda>f. Tag_json f = Key r) example_fields = Some g \<longrightarrow> decode (Type g) (Value r) \<noteq> None))
            \<longrightarrow> e = NumError ''ParseInt'' (Value ?row) k"
    by blast
  have "setSetting example_fields (new_AllSetting example_fields) (Key ?row) (Value ?row) = Inl (NumError ''ParseInt'' ''80a'' ErrSyntax)"
    by (simp add: example_fields_def read_eval)
  with 1 have k: "k = ErrSyntax" by simp
  from 3 have "e = NumError ''ParseInt'' ''80a'' k" by (simp add: next_fault_def)
  with 2 k show ?thesis by blast
qed

subsection \<open>C5: the field loop goes on after a failed save\<close>

text \<open>
  C5, as the code has it. Let validation pass and the fields have distinct keys. The loop
  of \<open>UpdateAllSetting\<close> makes one save per field whatever the earlier saves returned;
  every save that returned no error has left its row, with the field's key and printed
  value, in the final table; the result is \<open>Combine\<close> of the errors of the failed
  saves, in the order of the fields, each of them the error the database gave (the key
  is not added to it); and when no save failed the result is no error and the last
  upload dispatched is the bulk upload of the aggregate.
\<close>

theorem UpdateAllSetting_partial:
  assumes "CheckValid allSetting = None" and "distinct (map Tag_json flds)"
  shows "length (save_results flds allSetting s) = length flds \<and>
         (\<forall>i < length flds. save_results flds allSetting s ! i = None \<longrightarrow>
            find (\<lambda>r. Key r = Tag_json (flds ! i))
                 (settings (snd (UpdateAllSetting CheckValid flds allSetting s))) =
              Some \<lparr>Key = Tag_json (flds ! i), Value = Sprint (allSetting (Name (flds ! i)))\<rparr>) \<and>
         fst (UpdateAllSetting CheckValid flds allSetting s) =
           Combine (List.map_filter id (save_results flds allSetting s)) \<and>
         (\<forall>e. Some e \<in> set (save_results flds allSetting s) \<longrightarrow> (\<exists>msg. e = StorageError msg)) \<and>
         ((\<forall>r \<in> set (save_results flds allSetting s). r = None) \<longrightarrow>
            fst (UpdateAllSetting CheckValid flds allSetting s) = None \<and>
            dispatched (snd (UpdateAllSetting CheckValid flds allSetting s)) \<noteq> [] \<and>
            last (dispatched (snd (UpdateAllSetting CheckValid flds allSetting s))) =
              BulkUpload (map (\<lambda>field. (Tag_json field, allSetting (Name field)))
                              (filter (\<lambda>field. Tag_json field \<noteq> []) flds)))"
proof -
  obtain errs s1 where sf: "save_fields flds allSetting [] s = (errs, s1)"
    by (cases "save_fields flds allSetting [] s")
  have errs: "errs = List.map_filter id (save_results flds allSetting s)"
    using save_fields_errs [of flds allSetting "[]" s] sf by simp
  have u: "UpdateAllSetting CheckValid flds allSetting s =
      (Combine errs, if length errs = 0 then uploadAllSettingsToFirestore flds allSetting s1 else s1)"
    using assms(1) sf by (simp add: UpdateAllSetting_def)
  have st: "settings (snd (UpdateAllSetting CheckValid flds allSetting s)) = settings s1"
    by (simp add: u uploadAllSettingsToFirestore_def)
  have 1: "length (save_results flds allSetting s) = length flds" by (rule length_save_results)
  have 2: "\<forall>i < length flds. save_results flds allSetting s ! i = None \<longrightarrow>
            find (\<lambda>r. Key r = Tag_json (flds ! i))
                 (settings (snd (UpdateAllSetting CheckValid flds allSetting s))) =
              Some \<lparr>Key = Tag_json (flds ! i), Value = Sprint (allSetting (Name (flds ! i)))\<rparr>"
    using save_fields_commit [OF assms(2), of _ allSetting s "[]"] sf by (simp add: st)
  have 3: "fst (UpdateAllSetting CheckValid flds allSetting s) =
           Combine (List.map_filter id (save_results flds allSetting s))"
    by (simp add: u errs)
  have 4: "\<forall>e. Some e \<in> set (save_results flds allSetting s) \<longrightarrow> (\<exists>msg. e = StorageError msg)"
    using save_results_storage by blast
  have 5: "(\<forall>r \<in> set (save_results flds allSetting s). r = None) \<longrightarrow>
            fst (UpdateAllSetting CheckValid flds allSetting s) = None \<and>
            dispatched (snd (UpdateAllSetting CheckValid flds allSetting s)) \<noteq> [] \<and>
            last (dispatched (snd (UpdateAllSetting CheckValid flds allSetting s))) =
              BulkUpload (map (\<lambda>field. (Tag_json field, allSetting (Name field)))
                              (filter (\<lambda>field. Tag_json field \<noteq> []) flds))"
  proof
    assume a: "\<forall>r \<in> set (save_results flds allSetting s). r = None"
    have "List.map_filter id (save_results flds allSetting s) = []"
      using a by (simp add: map_filter_id_Nil)
    then have "errs = []" by (simp add: errs)
    then show "fst (UpdateAllSetting CheckValid flds allSetting s) = None \<and>
            dispatched (snd (UpdateAllSetting CheckValid flds allSetting s)) \<noteq> [] \<and>
            last (dispatched (snd (UpdateAllSetting CheckValid flds allSetting s))) =
              BulkUpload (map (\<lambda>field. (Tag_json field, allSetting (Name field)))
                              (filter (\<lambda>field. Tag_json field \<noteq> []) flds))"
      by (simp add: u Combine_def uploadAllSettingsToFirestore_def)
  qed
  from 1 2 3 4 5 show ?thesis by blast
qed

theorem UpdateAllSetting_partial_witness:
  "save_results example_fields example_setting \<lparr>settings = [], faults = [None, None, None, Some ''database is locked''], dispatched = []\<rparr> =
     [None, Some (StorageError ''database is locked'')] \<and>
   find (\<lambda>r. Key r = ''webListen'')
     (settings (snd (UpdateAllSetting always_valid example_fields example_setting
        \<lparr>settings = [], faults = [None, None, None, Some ''database is locked''], dispatched = []\<rparr>))) =
     Some \<lparr>Key = ''webListen'', Value = ''0.0.0.0''\<rparr> \<and>
   fst (UpdateAllSetting always_valid example_fields example_setting
        \<lparr>settings = [], faults = [None, None, None, Some ''database is locked''], dispatched = []\<rparr>) =
     Some (MultiError [StorageError ''database is locked''])"
proof -
  let ?s = "\<lparr>settings = [], faults = [None, None, None, Some ''database is locked''], dispatched = []\<rparr>"
  have r: "save_results example_fields example_setting ?s = [None, Some (StorageError ''database is locked'')]"
    by (simp add: example_fields_def example_setting_def store_eval Itoa_8080)
  have d: "distinct (map Tag_json example_fields)" by (simp add: example_fields_def)
  have c: "always_valid example_setting = None" by (simp add: always_valid_def)
  note t = UpdateAllSetting_partial [of always_valid example_setting example_fields ?s, OF c d]
  from t [THEN conjunct2, THEN conjunct1, rule_format, of 0]
  have 1: "find (\<lambda>r. Key r = ''webListen'') (settings (snd (UpdateAllSetting always_valid example_fields example_setting ?s))) =
     Some \<lparr>Key = ''webListen'', Value = ''0.0.0.0''\<rparr>"
    by (simp add: r) (simp add: example_fields_def example_setting_def)
  from t [THEN conjunct2, THEN conjunct2, THEN conjunct1]
  have 2: "fst (UpdateAllSetting always_valid example_fields example_setting ?s) = Some (MultiError [StorageError ''database is locked''])"
    by (simp add: r Combine_def)
  from r 1 2 show ?thesis by simp
qed

text \<open>
  The error returned need not name the key whose save failed: here the save of
  \<open>webListen\<close> fails, and the combined error holds only the message of the database.
\<close>

theorem UpdateAllSetting_error_names_no_key:
  "Tag_json (example_fields ! 0) = ''webListen'' \<and>
   save_results example_fields example_setting
     \<lparr>settings = [], faults = [None, Some ''database is locked''], dispatched = []\<rparr> =
     [Some (StorageError ''database is locked''), None] \<and>
   fst (UpdateAllSetting always_valid example_fields example_setting
     \<lparr>settings = [], faults = [None, Some ''database is locked''], dispatched = []\<rparr>) =
     Some (MultiError [StorageError ''database is locked'']) \<and>
   \<not> names_key (MultiError [StorageError ''database is locked'']) ''webListen''"
  by (simp add: example_fields_def example_setting_def always_valid_def store_eval Itoa_8080 names_key_def)

subsection \<open>C6: getString and getInt\<close>

text \<open>
  C6. When the query for the row does not fail, \<open>getString\<close> returns the value of the
  stored row if there is one, else the entry of the catalogue for the key, else the error
  \<open>key <k> not in defaultValueMap\<close> for the key \<open>k\<close>. \<open>getInt\<close> returns the error of
  \<open>getString\<close>, or \<open>Atoi\<close> of its string: the value of a base-10 integer within 64
  bits, and an \<open>Atoi\<close> error for every other text.
\<close>

theorem getString_getInt:
  assumes "fst (next_fault s) = None"
  shows "(\<forall>row. find (\<lambda>r. Key r = key) (settings s) = Some row \<longrightarrow>
            fst (getString dvm key s) = Inr (Value row)) \<and>
         (find (\<lambda>r. Key r = key) (settings s) = None \<longrightarrow>
            (\<forall>d. map_of dvm key = Some d \<longrightarrow> fst (getString dvm key s) = Inr d) \<and>
            (map_of dvm key = None \<longrightarrow>
               fst (getString dvm key s) =
                 Inl (NewError (''key <'' @ key @ ''> not in defaultValueMap'')))) \<and>
         fst (getInt dvm key s) =
           (case fst (getString dvm key s) of Inl err \<Rightarrow> Inl err | Inr str \<Rightarrow> Atoi str) \<and>
         (\<forall>str. valid_decimal str \<and> - (2 ^ 63) \<le> decimal_value str \<and> decimal_value str < 2 ^ 63 \<longrightarrow>
            Atoi str = Inr (decimal_value str)) \<and>
         (\<forall>str. \<not> (valid_decimal str \<and> - (2 ^ 63) \<le> decimal_value str \<and> decimal_value str < 2 ^ 63) \<longrightarrow>
            (\<exists>k. Atoi str = Inl (NumError ''Atoi'' str k)))"
proof (intro conjI allI impI)
  fix row assume "find (\<lambda>r. Key r = key) (settings s) = Some row"
  from getString_row [OF assms this, of dvm]
  show "fst (getString dvm key s) = Inr (Value row)" by auto
next
  fix d assume "find (\<lambda>r. Key r = key) (settings s) = None" "map_of dvm key = Some d"
  with getString_default [OF assms, of key dvm]
  show "fst (getString dvm key s) = Inr d" by auto
next
  assume "find (\<lambda>r. Key r = key) (settings s) = None" "map_of dvm key = None"
  with getString_default [OF assms, of key dvm]
  show "fst (getString dvm key s) = Inl (NewError (''key <'' @ key @ ''> not in defaultValueMap''))"
    by auto
next
  show "fst (getInt dvm key s) =
           (case fst (getString dvm key s) of Inl err \<Rightarrow> Inl err | Inr str \<Rightarrow> Atoi str)"
    by (auto simp: getInt_def split: prod.splits sum.splits)
next
  fix str assume "valid_decimal str \<and> - (2 ^ 63) \<le> decimal_value str \<and> decimal_value str < 2 ^ 63"
  then show "Atoi str = Inr (decimal_value str)"
    by (simp add: Atoi_def ParseInt_kind_valid)
next
  fix str assume a: "\<not> (valid_decimal str \<and> - (2 ^ 63) \<le> decimal_value str \<and> decimal_value str < 2 ^ 63)"
  show "\<exists>k. Atoi str = Inl (NumError ''Atoi'' str k)"
  proof (cases "valid_decimal str")
    case True
    with a show ?thesis by (auto simp: Atoi_def ParseInt_kind_valid)
  next
    case False
    from ParseInt_kind_invalid [OF False, of 64] show ?thesis by (auto simp: Atoi_def)
  qed
qed

theorem getString_getInt_witness:
  "fst (getString example_catalogue ''webPort''
          \<lparr>settings = [\<lparr>Key = ''webPort'', Value = ''8080''\<rparr>], faults = [], dispatched = []\<rparr>) = Inr ''8080'' \<and>
   fst (getString example_catalogue ''webPort'' empty_store) = Inr ''54321'' \<and>
   fst (getString example_catalogue ''tgBotToken'' empty_store) =
     Inl (NewError ''key <tgBotToken> not in defaultValueMap'') \<and>
   fst (getInt example_catalogue ''webPort'' empty_store) = Inr 54321 \<and>
   (\<exists>k. fst (getInt example_catalogue ''webBasePath'' empty_store) = Inl (NumError ''Atoi'' ''/'' k))"
proof -
  let ?d = "example_catalogue"
  let ?e = "empty_store"
  let ?s = "\<lparr>settings = [\<lparr>Key = ''webPort'', Value = ''8080''\<rparr>], faults = [], dispatched = []\<rparr>"
  have f: "fst (next_fault ?e) = None" "fst (next_fault ?s) = None"
    by (simp_all add: next_fault_def empty_store_def)
  have e: "find (\<lambda>r. Key r = key) (settings ?e) = None" for key by (simp add: empty_store_def)
  have v: "valid_decimal ''54321''" "decimal_value ''54321'' = 54321" "\<not> valid_decimal ''/''"
    by (simp_all add: valid_decimal_def decimal_value_def digits_value_def all_digits_def is_digit_def digit_val_def)
  have m: "map_of ?d ''webPort'' = Some ''54321''" "map_of ?d ''tgBotToken'' = None" "map_of ?d ''webBasePath'' = Some ''/''"
    by (simp_all add: example_catalogue_def defaultValueMap_def)
  from getString_getInt [OF f(2), of "''webPort''" ?d]
  have 1: "fst (getString ?d ''webPort'' ?s) = Inr ''8080''" by simp
  from getString_getInt [OF f(1), of "''webPort''" ?d] m v e
  have 2: "fst (getString ?d ''webPort'' ?e) = Inr ''54321''" "fst (getInt ?d ''webPort'' ?e) = Inr 54321"
    by simp_all
  from getString_getInt [OF f(1), of "''tgBotToken''" ?d] m e
  have 3: "fst (getString ?d ''tgBotToken'' ?e) = Inl (NewError ''key <tgBotToken> not in defaultValueMap'')" by simp
  from getString_getInt [OF f(1), of "''webBasePath''" ?d] m v e
  have 4: "\<exists>k. fst (getInt ?d ''webBasePath'' ?e) = Inl (NumError ''Atoi'' ''/'' k)" by simp
  from 1 2 3 4 show ?thesis by simp
qed

subsection \<open>C7: the base path starts and ends with a slash\<close>

text \<open>
  C7. When the query does not fail and a row for \<open>webBasePath\<close> is stored,
  \<open>GetBasePath\<close> returns a string that starts and ends with \<open>/\<close>: \<open>/api/\<close> for
  \<open>api\<close>, \<open>/x/\<close> for \<open>/x/\<close> and \<open>/\<close> for the empty string.
\<close>

theorem GetBasePath_normalized:
  assumes "fst (next_fault s) = None"
      and "find (\<lambda>r. Key r = ''webBasePath'') (settings s) = Some row"
  shows "\<exists>r. fst (GetBasePath dvm s) = Inr r \<and> HasPrefix r ''/'' \<and> HasSuffix r ''/'' \<and>
           (Value row = ''api'' \<longrightarrow> r = ''/api/'') \<and>
           (Value row = ''/x/'' \<longrightarrow> r = ''/x/'') \<and>
           (Value row = [] \<longrightarrow> r = ''/'')"
proof -
  from getString_row [OF assms, of dvm] obtain s1 where
    g: "getString dvm ''webBasePath'' s = (Inr (Value row), s1)" by blast
  show ?thesis
    by (cases "Value row") (auto simp: GetBasePath_def g Let_def HasPrefix_def HasSuffix_def)
qed

theorem GetBasePath_normalized_witness:
  "fst (GetBasePath example_catalogue
     \<lparr>settings = [\<lparr>Key = ''webBasePath'', Value = ''api''\<rparr>], faults = [], dispatched = []\<rparr>) = Inr ''/api/'' \<and>
   fst (GetBasePath example_catalogue
     \<lparr>settings = [\<lparr>Key = ''webBasePath'', Value = ''/x/''\<rparr>], faults = [], dispatched = []\<rparr>) = Inr ''/x/'' \<and>
   fst (GetBasePath example_catalogue
     \<lparr>settings = [\<lparr>Key = ''webBasePath'', Value = []\<rparr>], faults = [], dispatched = []\<rparr>) = Inr ''/''"
proof -
  have h: "fst (next_fault \<lparr>settings = [\<lparr>Key = ''webBasePath'', Value = x\<rparr>], faults = [], dispatched = []\<rparr>) = None"
    "find (\<lambda>r. Key r = ''webBasePath'')
       (settings \<lparr>settings = [\<lparr>Key = ''webBasePath'', Value = x\<rparr>], faults = [], dispatched = []\<rparr>) =
     Some \<lparr>Key = ''webBasePath'', Value = x\<rparr>" for x
    by (simp_all add: next_fault_def)
  from GetBasePath_normalized [OF h, where dvm = example_catalogue and x1 = "''api''"]
    GetBasePath_normalized [OF h, where dvm = example_catalogue and x1 = "''/x/''"]
    GetBasePath_normalized [OF h, where dvm = example_catalogue and x1 = "[]"]
  show ?thesis by auto
qed

subsection \<open>C8: the field loop saves the rows of the aggregate\<close>



subsection \<open>C9: the default secret is pinned\<close>

text \<open>
  C9. Let the catalogue have an entry for \<open>secret\<close> and none of the next three
  database calls fail. \<open>GetSecret\<close> returns the string that \<open>getString\<close> obtained,
  with no error; if that string is the default secret, the table afterwards has a row
  for \<open>secret\<close> with that value, and otherwise the table is unchanged.
\<close>

theorem GetSecret_pins:
  assumes "set (take 3 (faults s)) \<subseteq> {None}" and "map_of dvm ''secret'' = Some d"
  shows "\<exists>str s'. fst (getString dvm ''secret'' s) = Inr str \<and>
           GetSecret dvm s = ((None, str), s') \<and>
           (str = d \<longrightarrow>
              find (\<lambda>r. Key r = ''secret'') (settings s') = Some \<lparr>Key = ''secret'', Value = d\<rparr>) \<and>
           (str \<noteq> d \<longrightarrow> settings s' = settings s)"
proof -
  from assms(1) have f: "fst (next_fault s) = None"
    by (cases "faults s") (auto simp: next_fault_def)
  have "\<exists>str s1. getString dvm ''secret'' s = (Inr str, s1) \<and> settings s1 = settings s \<and> faults s1 = tl (faults s)"
  proof (cases "find (\<lambda>r. Key r = ''secret'') (settings s)")
    case None
    from getString_default [OF f None, of dvm] assms(2) show ?thesis by auto
  next
    case (Some row)
    from getString_row [OF f Some, of dvm] show ?thesis by auto
  qed
  then obtain str s1 where g: "getString dvm ''secret'' s = (Inr str, s1)"
    and s1: "settings s1 = settings s" "faults s1 = tl (faults s)" by blast
  from assms(1) s1 have "set (take 2 (faults s1)) \<subseteq> {None}"
    by (cases "faults s") auto
  from saveSetting_no_fault [OF this, of "''secret''" str]
  obtain s2 where sv: "saveSetting ''secret'' str s1 = (None, s2)" by blast
  from saveSetting_ok(1) [OF sv]
  have r: "find (\<lambda>r. Key r = ''secret'') (settings s2) = Some \<lparr>Key = ''secret'', Value = str\<rparr>" .
  show ?thesis
  proof (cases "str = d")
    case True
    with g sv r assms(2) show ?thesis by (simp add: GetSecret_def)
  next
    case False
    with g s1 assms(2) show ?thesis by (simp add: GetSecret_def)
  qed
qed

theorem GetSecret_pins_witness:
  "GetSecret example_catalogue empty_store =
     ((None, ''Xk29''),
      \<lparr>settings = [\<lparr>Key = ''secret'', Value = ''Xk29''\<rparr>], faults = [],
       dispatched = [SettingUpload ''secret'' ''Xk29'']\<rparr>) \<and>
   find (\<lambda>r. Key r = ''secret'') (settings (snd (GetSecret example_catalogue empty_store))) =
     Some \<lparr>Key = ''secret'', Value = ''Xk29''\<rparr>"
proof -
  let ?d = "example_catalogue"
  let ?s = "empty_store"
  have h: "set (take 3 (faults ?s)) \<subseteq> {None}" "map_of ?d ''secret'' = Some ''Xk29''"
    by (simp_all add: example_catalogue_def defaultValueMap_def empty_store_def)
  have g: "fst (getString ?d ''secret'' ?s) = Inr ''Xk29''"
    by (simp add: getString_def store_eval example_catalogue_def defaultValueMap_def empty_store_def)
  from GetSecret_pins [OF h] g
  have "find (\<lambda>r. Key r = ''secret'') (settings (snd (GetSecret ?d ?s))) = Some \<lparr>Key = ''secret'', Value = ''Xk29''\<rparr>"
    by auto
  moreover have "GetSecret ?d ?s = ((None, ''Xk29''),
      \<lparr>settings = [\<lparr>Key = ''secret'', Value = ''Xk29''\<rparr>], faults = [],
       dispatched = [SettingUpload ''secret'' ''Xk29'']\<rparr>)"
    by (simp add: GetSecret_def getString_def store_eval example_catalogue_def defaultValueMap_def empty_store_def)
  ultimately show ?thesis by simp
qed

subsection \<open>C10: integer fields are read with 32 bits\<close>

text \<open>
  C10. If a stored row has the key of an \<open>int\<close> field and its value is a base-10
  integer outside the range of a 32-bit integer, applying that row fails with the range
  error of \<open>ParseInt\<close>, and \<open>GetAllSetting\<close> returns an error and no aggregate; it is
  this range error when the fetch does not fail and every other row can be applied.
  \<open>Atoi\<close>, which \<open>getInt\<close> uses, accepts the same text when it fits 64 bits.
\<close>

theorem GetAllSetting_int32_range:
  assumes "distinct (map Name flds)"
      and "row \<in> set (settings s)" and "find (\<lambda>f. Tag_json f = Key row) flds = Some field"
      and "Type field = TInt" and "valid_decimal (Value row)"
      and "decimal_value (Value row) < - (2 ^ 31) \<or> 2 ^ 31 \<le> decimal_value (Value row)"
  shows "\<exists>e s'.
           setSetting flds (new_AllSetting flds) (Key row) (Value row) =
             Inl (NumError ''ParseInt'' (Value row) ErrRange) \<and>
           GetAllSetting flds dvm s = (Inl e, s') \<and> settings s' = settings s \<and>
           (fst (next_fault s) = None \<longrightarrow> read_error (settings s) e) \<and>
           (fst (next_fault s) = None \<and>
            (\<forall>r \<in> set (settings s). r \<noteq> row \<longrightarrow>
               (\<forall>g. find (\<lambda>f. Tag_json f = Key r) flds = Some g \<longrightarrow> decode (Type g) (Value r) \<noteq> None))
            \<longrightarrow> e = NumError ''ParseInt'' (Value row) ErrRange) \<and>
           (- (2 ^ 63) \<le> decimal_value (Value row) \<and> decimal_value (Value row) < 2 ^ 63 \<longrightarrow>
              Atoi (Value row) = Inr (decimal_value (Value row)))"
proof -
  from assms(6) have "ParseInt_kind (Value row) 32 = Inl ErrRange"
    by (auto simp: ParseInt_kind_valid [OF assms(5)])
  then have p: "ParseInt (Value row) 32 = Inl (NumError ''ParseInt'' (Value row) ErrRange)"
    by (simp add: ParseInt_def)
  have a: "- (2 ^ 63) \<le> decimal_value (Value row) \<and> decimal_value (Value row) < 2 ^ 63 \<longrightarrow>
              Atoi (Value row) = Inr (decimal_value (Value row))"
    by (simp add: Atoi_def ParseInt_kind_valid [OF assms(5)])
  from GetAllSetting_bad_int_row [OF assms(1-4) p, of dvm] a show ?thesis
    by (elim conjE exE, intro exI conjI) assumption+
qed

theorem GetAllSetting_int32_range_witness:
  "\<exists>s'. GetAllSetting example_fields example_catalogue
          \<lparr>settings = [\<lparr>Key = ''webPort'', Value = ''2147483648''\<rparr>], faults = [], dispatched = []\<rparr> =
        (Inl (NumError ''ParseInt'' ''2147483648'' ErrRange), s') \<and>
        Atoi ''2147483648'' = Inr 2147483648"
proof -
  let ?row = "\<lparr>Key = ''webPort'', Value = ''2147483648''\<rparr>"
  let ?s = "\<lparr>settings = [?row], faults = [], dispatched = []\<rparr>"
  let ?f = "\<lparr>Name = ''WebPort'', Tag_json = ''webPort'', Type = TInt\<rparr>"
  have v: "decimal_value ''2147483648'' = 2147483648" by (simp add: decimal_eval)
  have h: "distinct (map Name example_fields)" "?row \<in> set (settings ?s)"
    "find (\<lambda>f. Tag_json f = Key ?row) example_fields = Some ?f" "Type ?f = TInt" "valid_decimal (Value ?row)"
    "decimal_value (Value ?row) < - (2 ^ 31) \<or> 2 ^ 31 \<le> decimal_value (Value ?row)"
    by (simp_all add: example_fields_def v) (simp add: decimal_eval)
  from GetAllSetting_int32_range [OF h, of example_catalogue]
  obtain e s' where
    2: "GetAllSetting example_fields example_catalogue ?s = (Inl e, s')"
    and 3: "fst (next_fault ?s) = None \<and>
            (\<forall>r \<in> set (settings ?s). r \<noteq> ?row \<longrightarrow>
               (\<forall>g. find (\<lambda>f. Tag_json f = Key r) example_fields = Some g \<longrightarrow> decode (Type g) (Value r) \<noteq> None))
            \<longrightarrow> e = NumError ''ParseInt'' (Value ?row) ErrRange"
    and 4: "- (2 ^ 63) \<le> decimal_value (Value ?row) \<and> decimal_value (Value ?row) < 2 ^ 63 \<longrightarrow>
              Atoi (Value ?row) = Inr (decimal_value (Value ?row))"
    by blast
  from 3 have "e = NumError ''ParseInt'' ''2147483648'' ErrRange" by (simp add: next_fault_def)
  moreover from 4 have "Atoi ''2147483648'' = Inr 2147483648" by (simp add: v)
  ultimately show ?thesis using 2 by blast
qed

end
